theory Spec2Isabelle
  imports Complex_Main "HOL-Library.Word" "HOL-Library.Monad_Syntax" "HOL-Library.Log_Nat"
begin

unbundle bit_operations_syntax

section \<open>JavaScript values used by App.jsx\<close>

text \<open>
  A JavaScript string is a sequence of UTF-16 code units; \<open>charCodeAt\<close> returns the unit
  as a number in 0..65535. ASCII literals of the source are written through \<open>js\<close>.
\<close>

type_synonym jschar = "16 word"
type_synonym jsstring = "jschar list"

definition js :: "string \<Rightarrow> jsstring" where
  "js s = map (\<lambda>c. word_of_nat (of_char c)) s"

text \<open>
  ECMAScript \<open>ToInt32\<close> on an integral number: reduce modulo \<open>2^32\<close> and read the result
  as two's complement. \<open>x | 0\<close> is \<open>ToInt32 x\<close>; \<open>x << k\<close> is
  \<open>ToInt32 (ToInt32 x * 2^(k mod 32))\<close>.
\<close>

definition ToInt32 :: "int \<Rightarrow> int" where
  "ToInt32 x = (let m = x mod 2 ^ 32 in if m \<ge> 2 ^ 31 then m - 2 ^ 32 else m)"

definition js_shl :: "int \<Rightarrow> nat \<Rightarrow> int" where
  "js_shl x k = ToInt32 (ToInt32 x * 2 ^ (k mod 32))"

section \<open>hashString (App.jsx, lines 5-12)\<close>

text \<open>
  The loop body \<open>hash = (hash << 5) - hash + str.charCodeAt(i); hash |= 0\<close>. The
  subtraction and the addition are number (double) arithmetic on integers; they are exact
  because the operands stay far below \<open>2^53\<close> (lemma \<open>hash_step_exact\<close> below).
\<close>

definition hash_step :: "int \<Rightarrow> jschar \<Rightarrow> int" where
  "hash_step hash c = ToInt32 (js_shl hash 5 - hash + uint c)"

definition hashString :: "jsstring \<Rightarrow> int" where
  "hashString str = \<bar>foldl hash_step 0 str\<bar>"

text \<open>
  The hasher as the specification words it: a 32-bit accumulator, \<open>acc = acc * 31 + code\<close>
  wrapping in two's complement, and the absolute value of the signed reading at the end.
\<close>

definition hash_spec :: "jsstring \<Rightarrow> int" where
  "hash_spec str = \<bar>sint (foldl (\<lambda>acc c. acc * 31 + ucast c) (0 :: 32 word) str)\<bar>"

section \<open>Parameter derivation (App.jsx, lines 81, 82 and 111)\<close>

text \<open>
  \<open>%\<close> on two non-negative integral numbers is the mathematical remainder. The LFO rate is
  a double in the source; it is stated here over the reals, where \<open>0.1\<close> and the division by
  100 are exact.
\<close>

definition baseFreq :: "jsstring \<Rightarrow> int" where
  "baseFreq prompt = 110 + hashString prompt mod 220"

definition detuneCents :: "jsstring \<Rightarrow> int" where
  "detuneCents prompt = hashString (prompt @ js ''detune'') mod 200 - 100"

definition lfoRate :: "jsstring \<Rightarrow> real" where
  "lfoRate prompt = 1 / 10 + real_of_int (hashString (prompt @ js ''lfo'') mod 30) / 100"

section \<open>Numbers as the encoder sees them\<close>

text \<open>
  The samples of an \<open>AudioBuffer\<close> are 32-bit floats read as JavaScript numbers: a finite
  value, an infinity or NaN. Finite values are modelled by the real they denote. The only
  arithmetic the encoder does on a sample is a comparison with \<open>1\<close>, \<open>-1\<close> and \<open>0\<close> and
  one multiplication by \<open>0x8000\<close> or \<open>0x7fff\<close>; on a 32-bit float (24 significant bits)
  that product has at most 39 significant bits and is exact in double precision.
\<close>

datatype jsnum = Num real | PosInf | NegInf | NaN

text \<open>The relational operator \<open><\<close>: false as soon as one side is NaN.\<close>

fun js_less :: "jsnum \<Rightarrow> jsnum \<Rightarrow> bool" where
  "js_less NaN _ = False"
| "js_less _ NaN = False"
| "js_less (Num a) (Num b) = (a < b)"
| "js_less NegInf NegInf = False"
| "js_less NegInf _ = True"
| "js_less _ NegInf = False"
| "js_less PosInf _ = False"
| "js_less _ PosInf = True"

definition Math_min :: "jsnum \<Rightarrow> jsnum \<Rightarrow> jsnum" where
  "Math_min a b = (if a = NaN \<or> b = NaN then NaN else if js_less b a then b else a)"

definition Math_max :: "jsnum \<Rightarrow> jsnum \<Rightarrow> jsnum" where
  "Math_max a b = (if a = NaN \<or> b = NaN then NaN else if js_less a b then b else a)"

fun js_times :: "jsnum \<Rightarrow> jsnum \<Rightarrow> jsnum" where
  "js_times NaN _ = NaN"
| "js_times _ NaN = NaN"
| "js_times (Num a) (Num b) = Num (a * b)"
| "js_times (Num a) PosInf = (if a = 0 then NaN else if 0 < a then PosInf else NegInf)"
| "js_times (Num a) NegInf = (if a = 0 then NaN else if 0 < a then NegInf else PosInf)"
| "js_times PosInf (Num b) = (if b = 0 then NaN else if 0 < b then PosInf else NegInf)"
| "js_times NegInf (Num b) = (if b = 0 then NaN else if 0 < b then NegInf else PosInf)"
| "js_times PosInf PosInf = PosInf"
| "js_times PosInf NegInf = NegInf"
| "js_times NegInf PosInf = NegInf"
| "js_times NegInf NegInf = PosInf"

text \<open>
  The integer conversion of \<open>DataView.setInt16\<close> (ECMAScript \<open>ToInt16\<close>): NaN and the
  infinities give 0; a finite number is truncated towards zero, reduced modulo \<open>2^16\<close> and
  read as two's complement.
\<close>

definition js_truncate :: "real \<Rightarrow> int" where
  "js_truncate x = (if x < 0 then - \<lfloor>- x\<rfloor> else \<lfloor>x\<rfloor>)"

definition int16_of :: "int \<Rightarrow> int" where
  "int16_of k = (let m = k mod 2 ^ 16 in if m \<ge> 2 ^ 15 then m - 2 ^ 16 else m)"

fun ToInt16 :: "jsnum \<Rightarrow> int" where
  "ToInt16 (Num x) = int16_of (js_truncate x)"
| "ToInt16 _ = 0"

section \<open>DataView over an ArrayBuffer\<close>

text \<open>
  The buffer is a list of bytes. A \<open>set\<close> method writes at a byte offset and raises a
  RangeError, here \<open>None\<close>, when the bytes would not fit. The numbers written by
  \<open>setUint8\<close>, \<open>setUint16\<close> and \<open>setUint32\<close> in this program are non-negative integers;
  the method reduces them modulo \<open>2^8\<close>, \<open>2^16\<close>, \<open>2^32\<close>.
\<close>

type_synonym byte = "8 word"

fun put :: "byte list \<Rightarrow> nat \<Rightarrow> byte list \<Rightarrow> byte list" where
  "put view off [] = view"
| "put view off (b # bs) = put (view[off := b]) (Suc off) bs"

definition put_bytes :: "byte list \<Rightarrow> nat \<Rightarrow> byte list \<Rightarrow> byte list option" where
  "put_bytes view off bs = (if off + length bs \<le> length view then Some (put view off bs) else None)"

fun le_bytes :: "nat \<Rightarrow> nat \<Rightarrow> byte list" where
  "le_bytes 0 v = []"
| "le_bytes (Suc k) v = word_of_nat (v mod 256) # le_bytes k (v div 256)"

fun le_value :: "byte list \<Rightarrow> nat" where
  "le_value [] = 0"
| "le_value (b # bs) = unat b + 256 * le_value bs"

definition endian :: "bool \<Rightarrow> byte list \<Rightarrow> byte list" where
  "endian littleEndian bs = (if littleEndian then bs else rev bs)"

definition region :: "byte list \<Rightarrow> nat \<Rightarrow> nat \<Rightarrow> byte list" where
  "region view off k = take k (drop off view)"

definition setUint8 :: "byte list \<Rightarrow> nat \<Rightarrow> nat \<Rightarrow> byte list option" where
  "setUint8 view off v = put_bytes view off (le_bytes 1 (v mod 2 ^ 8))"

definition setUint16 :: "byte list \<Rightarrow> nat \<Rightarrow> nat \<Rightarrow> bool \<Rightarrow> byte list option" where
  "setUint16 view off v littleEndian =
     put_bytes view off (endian littleEndian (le_bytes 2 (v mod 2 ^ 16)))"

definition setUint32 :: "byte list \<Rightarrow> nat \<Rightarrow> nat \<Rightarrow> bool \<Rightarrow> byte list option" where
  "setUint32 view off v littleEndian =
     put_bytes view off (endian littleEndian (le_bytes 4 (v mod 2 ^ 32)))"

definition setInt16 :: "byte list \<Rightarrow> nat \<Rightarrow> jsnum \<Rightarrow> bool \<Rightarrow> byte list option" where
  "setInt16 view off x littleEndian =
     put_bytes view off (endian littleEndian (le_bytes 2 (nat (ToInt16 x mod 2 ^ 16))))"

definition getUint32 :: "byte list \<Rightarrow> nat \<Rightarrow> bool \<Rightarrow> nat option" where
  "getUint32 view off littleEndian =
     (if off + 4 \<le> length view then Some (le_value (endian littleEndian (region view off 4)))
      else None)"

definition getInt16 :: "byte list \<Rightarrow> nat \<Rightarrow> bool \<Rightarrow> int option" where
  "getInt16 view off littleEndian =
     (if off + 2 \<le> length view
      then Some (int16_of (int (le_value (endian littleEndian (region view off 2)))))
      else None)"

section \<open>audioBufferToWavBlob (App.jsx, lines 25-73)\<close>

text \<open>
  An \<open>AudioBuffer\<close>: channel count, sample rate, length in frames, and the samples by
  channel and frame (\<open>getChannelData(ch)[i]\<close>); the encoder reads only \<open>ch\<close> below the
  channel count and \<open>i\<close> below the length. The sample rate of this program is the integer
  44100.
\<close>

record audio_buffer =
  numberOfChannels :: nat
  sampleRate :: nat
  length_frames :: nat
  getChannelData :: "nat \<Rightarrow> nat \<Rightarrow> jsnum"

text \<open>The nested \<open>writeString\<close>: one \<open>setUint8\<close> for each code unit.\<close>

fun writeString :: "byte list \<Rightarrow> nat \<Rightarrow> jsstring \<Rightarrow> byte list option" where
  "writeString view offset [] = Some view"
| "writeString view offset (c # cs) =
     do { view' \<leftarrow> setUint8 view offset (unat c); writeString view' (offset + 1) cs }"

text \<open>The bytes \<open>writeString\<close> stores for a string: each code unit modulo 256.\<close>

definition char_bytes :: "jsstring \<Rightarrow> byte list" where
  "char_bytes s = map (\<lambda>c. word_of_nat (unat c mod 256)) s"

text \<open>Lines 42-55: the 44-byte header, with the offsets the source reaches by \<open>offset += k\<close>.\<close>

definition write_header :: "byte list \<Rightarrow> nat \<Rightarrow> nat \<Rightarrow> nat \<Rightarrow> byte list option" where
  "write_header view numOfChan rate numFrames =
     (let blockAlign = numOfChan * 2 in
      do {
        v \<leftarrow> writeString view 0 (js ''RIFF'');
        v \<leftarrow> setUint32 v 4 (36 + numFrames * blockAlign) True;
        v \<leftarrow> writeString v 8 (js ''WAVE'');
        v \<leftarrow> writeString v 12 (js ''fmt '');
        v \<leftarrow> setUint32 v 16 16 True;
        v \<leftarrow> setUint16 v 20 1 True;
        v \<leftarrow> setUint16 v 22 numOfChan True;
        v \<leftarrow> setUint32 v 24 rate True;
        v \<leftarrow> setUint32 v 28 (rate * blockAlign) True;
        v \<leftarrow> setUint16 v 32 blockAlign True;
        v \<leftarrow> setUint16 v 34 16 True;
        v \<leftarrow> writeString v 36 (js ''data'');
        setUint32 v 40 (numFrames * blockAlign) True
      })"

text \<open>
  Lines 58-64: the interleaved \<open>Float32Array\<close>, zero-filled, then written channel by
  channel at index \<open>i * numOfChan + ch\<close>.
\<close>

definition interleave :: "audio_buffer \<Rightarrow> jsnum list" where
  "interleave buffer =
     (let numOfChan = numberOfChannels buffer; numFrames = length_frames buffer in
      fold (\<lambda>ch acc.
              fold (\<lambda>i acc'. acc'[i * numOfChan + ch := getChannelData buffer ch i])
                   [0..<numFrames] acc)
           [0..<numOfChan] (replicate (numFrames * numOfChan) (Num 0)))"

text \<open>
  Lines 67-68: the clamp \<open>Math.max(-1, Math.min(1, x))\<close> and the scaled number
  \<open>s < 0 ? s * 0x8000 : s * 0x7fff\<close> handed to \<open>setInt16\<close>.
\<close>

definition pcm_sample :: "jsnum \<Rightarrow> jsnum" where
  "pcm_sample x =
     (let s = Math_max (Num (- 1)) (Math_min (Num 1) x) in
      if js_less s (Num 0) then js_times s (Num 32768) else js_times s (Num 32767))"

text \<open>Lines 65-70: the loop over the interleaved samples, \<open>idx\<close> advancing by 2.\<close>

fun write_pcm :: "jsnum list \<Rightarrow> nat \<Rightarrow> byte list \<Rightarrow> byte list option" where
  "write_pcm [] idx view = Some view"
| "write_pcm (x # xs) idx view =
     do { view' \<leftarrow> setInt16 view idx (pcm_sample x) True; write_pcm xs (idx + 2) view' }"

definition audioBufferToWavBlob :: "audio_buffer \<Rightarrow> byte list option" where
  "audioBufferToWavBlob buffer =
     (let numOfChan = numberOfChannels buffer;
          numFrames = length_frames buffer;
          blockAlign = numOfChan * 2;
          bufferLength = 44 + numFrames * blockAlign;
          view = replicate bufferLength 0
      in do {
        v \<leftarrow> write_header view numOfChan (sampleRate buffer) numFrames;
        write_pcm (interleave buffer) 44 v
      })"

text \<open>What a reader of the blob sees: its length, its RIFF chunk size, one stored sample.\<close>

definition blob_length :: "audio_buffer \<Rightarrow> nat option" where
  "blob_length buffer = map_option length (audioBufferToWavBlob buffer)"

definition riff_chunk_size :: "audio_buffer \<Rightarrow> nat option" where
  "riff_chunk_size buffer =
     do { blob \<leftarrow> audioBufferToWavBlob buffer; getUint32 blob 4 True }"

definition stored_sample :: "audio_buffer \<Rightarrow> nat \<Rightarrow> nat \<Rightarrow> int option" where
  "stored_sample buffer i ch =
     do { blob \<leftarrow> audioBufferToWavBlob buffer;
          getInt16 blob (44 + 2 * (i * numberOfChannels buffer + ch)) True }"

text \<open>
  The conversion as the specification words it, with rounding to the nearest integer, and
  the decoder of the round-trip property: a negative stored value is divided by 32768, any
  other by 32767.
\<close>

definition spec_pcm16 :: "real \<Rightarrow> int" where
  "spec_pcm16 s = round (max (- 1) (min 1 s) * (if s < 0 then 32768 else 32767))"

definition decode_pcm16 :: "int \<Rightarrow> real" where
  "decode_pcm16 v = (if v < 0 then real_of_int v / 32768 else real_of_int v / 32767)"

definition decoded_sample :: "audio_buffer \<Rightarrow> nat \<Rightarrow> nat \<Rightarrow> real option" where
  "decoded_sample buffer i ch = map_option decode_pcm16 (stored_sample buffer i ch)"

definition constant_buffer :: "nat \<Rightarrow> nat \<Rightarrow> jsnum \<Rightarrow> audio_buffer" where
  "constant_buffer numOfChan numFrames x =
     \<lparr>numberOfChannels = numOfChan, sampleRate = 44100, length_frames = numFrames,
      getChannelData = (\<lambda>ch i. x)\<rparr>"

section \<open>The master gain envelope (App.jsx, lines 119-123)\<close>

text \<open>
  The source programs the gain parameter with four automation events. The Web Audio API
  keeps the events of a parameter ordered by time, a new event going after those of the
  same time, and gives the parameter, between an event at \<open>T0\<close> with value \<open>V0\<close> and a
  following linear ramp to \<open>V1\<close> at \<open>T1\<close>, the value \<open>V0 + (V1 - V0) * (t - T0) / (T1 - T0)\<close>
  for \<open>T0 \<le> t < T1\<close>; after the last event the value stays. Times and values are reals.
\<close>

datatype automation_event = SetValueAtTime real real | LinearRampToValueAtTime real real

fun event_value :: "automation_event \<Rightarrow> real" where
  "event_value (SetValueAtTime v t) = v"
| "event_value (LinearRampToValueAtTime v t) = v"

fun event_time :: "automation_event \<Rightarrow> real" where
  "event_time (SetValueAtTime v t) = t"
| "event_time (LinearRampToValueAtTime v t) = t"

fun insert_event :: "automation_event \<Rightarrow> automation_event list \<Rightarrow> automation_event list" where
  "insert_event e [] = [e]"
| "insert_event e (x # xs) =
     (if event_time e < event_time x then e # x # xs else x # insert_event e xs)"

fun value_at :: "real \<Rightarrow> real \<Rightarrow> automation_event list \<Rightarrow> real \<Rightarrow> real" where
  "value_at v0 t0 [] t = v0"
| "value_at v0 t0 (e # es) t =
     (if t < event_time e
      then (case e of
              SetValueAtTime v1 t1 \<Rightarrow> v0
            | LinearRampToValueAtTime v1 t1 \<Rightarrow> v0 + (v1 - v0) * ((t - t0) / (t1 - t0)))
      else value_at (event_value e) (event_time e) es t)"

definition master_gain_events :: "real \<Rightarrow> automation_event list" where
  "master_gain_events seconds =
     foldl (\<lambda>events e. insert_event e events) []
       [SetValueAtTime 0 0,
        LinearRampToValueAtTime (8 / 10) 1,
        LinearRampToValueAtTime (6 / 10) (seconds - 1),
        LinearRampToValueAtTime 0 seconds]"

text \<open>The gain at time \<open>t \<ge> 0\<close>; 1 is the default value of a gain parameter.\<close>

definition master_gain :: "real \<Rightarrow> real \<Rightarrow> real" where
  "master_gain seconds t = value_at 1 0 (master_gain_events seconds) t"

section \<open>Double-precision arithmetic of the merge driver\<close>

text \<open>
  \<open>Math.ceil(duration * 1000) + 100\<close> is arithmetic on doubles: the product and the sum
  are the exact results rounded to the nearest double, ties to the even significand. A
  finite double is modelled by the real it denotes. \<open>double_exponent x\<close> is the binary
  exponent \<open>e\<close> of a positive \<open>x\<close>, with \<open>2^e \<le> x < 2^(e+1)\<close>; the spacing of doubles
  around \<open>x\<close> is \<open>2^(e-52)\<close>, and never less than \<open>2^-1074\<close>; a rounded magnitude of
  \<open>2^1024\<close> or more overflows to an infinity.
\<close>

definition double_exponent :: "real \<Rightarrow> int" where
  "double_exponent x =
     (if 1 \<le> x then bitlen \<lfloor>x\<rfloor> - 1 else - bitlen (\<lceil>1 / x\<rceil> - 1))"

definition round_half_even :: "real \<Rightarrow> int" where
  "round_half_even x =
     (let f = \<lfloor>x\<rfloor>; r = x - real_of_int f
      in if r < 1 / 2 then f else if 1 / 2 < r then f + 1 else if even f then f else f + 1)"

definition round_magnitude :: "real \<Rightarrow> real" where
  "round_magnitude a =
     (let q = max (double_exponent a - 52) (- 1074)
      in real_of_int (round_half_even (a / 2 powi q)) * 2 powi q)"

definition to_double :: "real \<Rightarrow> jsnum" where
  "to_double x =
     (if x = 0 then Num 0
      else if 2 powi 1024 \<le> round_magnitude \<bar>x\<bar> then (if 0 < x then PosInf else NegInf)
      else Num (if 0 < x then round_magnitude \<bar>x\<bar> else - round_magnitude \<bar>x\<bar>))"

fun times_double :: "jsnum \<Rightarrow> jsnum \<Rightarrow> jsnum" where
  "times_double NaN _ = NaN"
| "times_double _ NaN = NaN"
| "times_double (Num a) (Num b) = to_double (a * b)"
| "times_double (Num a) PosInf = (if a = 0 then NaN else if 0 < a then PosInf else NegInf)"
| "times_double (Num a) NegInf = (if a = 0 then NaN else if 0 < a then NegInf else PosInf)"
| "times_double PosInf (Num b) = (if b = 0 then NaN else if 0 < b then PosInf else NegInf)"
| "times_double NegInf (Num b) = (if b = 0 then NaN else if 0 < b then NegInf else PosInf)"
| "times_double PosInf PosInf = PosInf"
| "times_double PosInf NegInf = NegInf"
| "times_double NegInf PosInf = NegInf"
| "times_double NegInf NegInf = PosInf"

fun plus_double :: "jsnum \<Rightarrow> jsnum \<Rightarrow> jsnum" where
  "plus_double NaN _ = NaN"
| "plus_double _ NaN = NaN"
| "plus_double (Num a) (Num b) = to_double (a + b)"
| "plus_double PosInf NegInf = NaN"
| "plus_double NegInf PosInf = NaN"
| "plus_double PosInf _ = PosInf"
| "plus_double _ PosInf = PosInf"
| "plus_double NegInf _ = NegInf"
| "plus_double _ NegInf = NegInf"

fun Math_ceil :: "jsnum \<Rightarrow> jsnum" where
  "Math_ceil (Num x) = Num (real_of_int \<lceil>x\<rceil>)"
| "Math_ceil x = x"

section \<open>renderMergedAV and mergeAndPreview (App.jsx, lines 273-381 and 427-443)\<close>

text \<open>
  The two functions act on the browser; the model lists the actions in the order the source
  performs them, up to the end of the synchronous set-up of the capture, and says how the
  call completes: \<open>Inl e\<close> when the promise of the async function rejects with \<open>e\<close>,
  \<open>Inr ()\<close> when it does not. The browser's decoder is a parameter: the duration in
  seconds of the decoded buffer, or \<open>None\<close> when \<open>decodeAudioData\<close> rejects. The
  duration is a double; a real stands for the double nearest to it. A timer carries the
  number handed to \<open>setTimeout\<close>.
\<close>

datatype timer_action = StartAudioSource | StopRecorder | ScrollToPreview

datatype js_error = TypeError | EncodingError

datatype effect =
    Alert jsstring
  | SetLoading jsstring
  | NewAudioContext
  | ReadArrayBuffer
  | DecodeAudioData
  | CreateCanvas
  | CreateAudioGraph
  | CaptureStream nat
  | NewMediaRecorder
  | RecorderStart
  | RequestAnimationFrame
  | SetTimeout timer_action jsnum
  | SetMergedBlob
  | ConsoleError js_error

text \<open>Line 379: \<open>Math.ceil(duration * 1000) + 100\<close>.\<close>

definition stop_delay_ms :: "real \<Rightarrow> jsnum" where
  "stop_delay_ms duration =
     plus_double (Math_ceil (times_double (to_double duration) (Num 1000))) (Num 100)"

definition renderMergedAV ::
  "(byte list \<Rightarrow> real option) \<Rightarrow> jsstring \<Rightarrow> byte list option \<Rightarrow> nat
     \<Rightarrow> effect list \<times> (js_error + unit)" where
  "renderMergedAV decodeAudioData prompt audioBlob fps =
     (case audioBlob of
        None \<Rightarrow> ([NewAudioContext], Inl TypeError)
      | Some bytes \<Rightarrow>
          (case decodeAudioData bytes of
             None \<Rightarrow> ([NewAudioContext, ReadArrayBuffer, DecodeAudioData], Inl EncodingError)
           | Some duration \<Rightarrow>
               ([NewAudioContext, ReadArrayBuffer, DecodeAudioData, CreateCanvas,
                 CreateAudioGraph, CaptureStream fps, NewMediaRecorder, RecorderStart,
                 RequestAnimationFrame, SetTimeout StartAudioSource (Num 50),
                 SetTimeout StopRecorder (stop_delay_ms duration)], Inr ())))"

record app_state =
  prompt :: jsstring
  audioBlob :: "byte list option"
  merged :: bool
  loading :: jsstring

text \<open>
  \<open>mergeAndPreview\<close>: the guard of line 428 returns the result of \<open>alert\<close>; behind it
  every error of \<open>renderMergedAV\<close> is caught and reported, so the call never rejects.
\<close>

definition mergeAndPreview ::
  "(byte list \<Rightarrow> real option) \<Rightarrow> app_state
     \<Rightarrow> effect list \<times> (js_error + unit) \<times> app_state" where
  "mergeAndPreview decodeAudioData st =
     (if audioBlob st = None then ([Alert (js ''Generate audio first.'')], Inr (), st)
      else
        (case renderMergedAV decodeAudioData (prompt st) (audioBlob st) 30 of
           (effects, Inr _) \<Rightarrow>
             ([SetLoading (js ''merge'')] @ effects
                @ [SetMergedBlob, SetTimeout ScrollToPreview (Num 100), SetLoading (js [])],
              Inr (),
              st\<lparr>merged := True, loading := js []\<rparr>)
         | (effects, Inl e) \<Rightarrow>
             ([SetLoading (js ''merge'')] @ effects
                @ [ConsoleError e, Alert (js ''Merge failed. Please try again.''),
                   SetLoading (js [])],
              Inr (),
              st\<lparr>loading := js []\<rparr>)))"

text \<open>
  The actions that start a capture session or a recorder, and those that start one of
  these or an audio context.
\<close>

fun starts_capture :: "effect \<Rightarrow> bool" where
  "starts_capture (CaptureStream fps) = True"
| "starts_capture NewMediaRecorder = True"
| "starts_capture RecorderStart = True"
| "starts_capture _ = False"

fun starts_media :: "effect \<Rightarrow> bool" where
  "starts_media NewAudioContext = True"
| "starts_media e = starts_capture e"

text \<open>
  The timers an action list sets, a decoder that reports a fixed duration, and the state
  of the program before any audio was generated.
\<close>

fun timer_of :: "effect \<Rightarrow> (timer_action \<times> jsnum) option" where
  "timer_of (SetTimeout a ms) = Some (a, ms)"
| "timer_of _ = None"

definition timers :: "effect list \<Rightarrow> (timer_action \<times> jsnum) list" where
  "timers effects = List.map_filter timer_of effects"

definition decodes_to :: "real \<Rightarrow> byte list \<Rightarrow> real option" where
  "decodes_to d bytes = Some d"

definition no_audio_state :: app_state where
  "no_audio_state = \<lparr>prompt = js ''test'', audioBlob = None, merged = False, loading = []\<rparr>"

section \<open>wrapText (App.jsx, lines 249-265 and 349-365)\<close>

text \<open>
  The two nested functions of that name have the same body. \<open>text.split(' ')\<close> cuts at
  every space, so the empty string gives one empty word. \<open>measureText\<close> belongs to the
  canvas and is a parameter: the width of a string, a real number.
\<close>

fun split_space :: "jsstring \<Rightarrow> jsstring list" where
  "split_space [] = [[]]"
| "split_space (c # cs) =
     (if c = 32 then [] # split_space cs
      else (case split_space cs of [] \<Rightarrow> [[c]] | w # ws \<Rightarrow> (c # w) # ws))"

definition wrap_step ::
  "real \<Rightarrow> (jsstring \<Rightarrow> real) \<Rightarrow> jsstring list \<times> jsstring \<Rightarrow> jsstring
     \<Rightarrow> jsstring list \<times> jsstring" where
  "wrap_step maxWidth measureText st w =
     (case st of (lines, current) \<Rightarrow>
        (let test = (if current \<noteq> [] then current @ js '' '' @ w else w);
             width = measureText test
         in if width > maxWidth \<and> current \<noteq> [] then (lines @ [current], w)
            else (lines, test)))"

definition wrapText :: "jsstring \<Rightarrow> real \<Rightarrow> (jsstring \<Rightarrow> real) \<Rightarrow> jsstring list" where
  "wrapText text maxWidth measureText =
     (case foldl (wrap_step maxWidth measureText) ([], []) (split_space text) of
        (lines, current) \<Rightarrow> take 4 (if current \<noteq> [] then lines @ [current] else lines))"

text \<open>
  What the loop keeps true of every finished line and of a non-empty current line: it is
  not empty, and it fits the width or is one of the words. The measure of the examples
  gives every code unit 10 pixels.
\<close>

definition line_ok :: "real \<Rightarrow> (jsstring \<Rightarrow> real) \<Rightarrow> jsstring set \<Rightarrow> jsstring \<Rightarrow> bool" where
  "line_ok maxWidth measureText W l \<longleftrightarrow> l \<noteq> [] \<and> (measureText l \<le> maxWidth \<or> l \<in> W)"

definition narrow_measure :: "jsstring \<Rightarrow> real" where
  "narrow_measure s = 10 * real (length s)"

section \<open>Facts about the hasher\<close>

lemma ToInt32_range: "- (2 ^ 31) \<le> ToInt32 x \<and> ToInt32 x < 2 ^ 31"
proof -
  have "0 \<le> x mod 4294967296" "x mod 4294967296 < 4294967296" by simp_all
  then show ?thesis unfolding ToInt32_def Let_def by auto
qed

lemma sint_word_of_int_ToInt32: "sint (word_of_int x :: 32 word) = ToInt32 x"
proof -
  define m where "m = x mod 4294967296"
  have m: "0 \<le> m" "m < 4294967296" by (simp_all add: m_def)
  have "sint (word_of_int x :: 32 word) = (x + 2147483648) mod 4294967296 - 2147483648"
    by (simp add: sint_sbintrunc' signed_take_bit_eq_take_bit_shift take_bit_eq_mod)
  also have "(x + 2147483648) mod 4294967296 = (m + 2147483648) mod 4294967296"
    unfolding m_def by (rule mod_add_left_eq [symmetric])
  also have "\<dots> = (if 2147483648 \<le> m then m - 2147483648 else m + 2147483648)"
  proof (cases "2147483648 \<le> m")
    case True
    have "m + 2147483648 = (m - 2147483648) + 4294967296" by simp
    then have "(m + 2147483648) mod 4294967296 = (m - 2147483648) mod 4294967296"
      by (simp only: mod_add_self2)
    also have "\<dots> = m - 2147483648" using True m by simp
    finally show ?thesis using True by simp
  next
    case False
    then show ?thesis using m by simp
  qed
  finally show ?thesis
    by (simp add: ToInt32_def Let_def m_def)
qed

lemma word_of_int_ToInt32: "(word_of_int (ToInt32 x) :: 32 word) = word_of_int x"
  by (simp flip: sint_word_of_int_ToInt32)

lemma word_of_int_js_shl5: "(word_of_int (js_shl (sint (w :: 32 word)) 5) :: 32 word) = w * 32"
  unfolding js_shl_def by (simp add: word_of_int_ToInt32)

lemma hash_step_word:
  "hash_step (sint (w :: 32 word)) c = sint (w * 31 + ucast c)"
proof -
  have s: "(word_of_int (sint w) :: 32 word) = w" by simp
  have "(word_of_int (js_shl (sint w) 5 - sint w + uint c) :: 32 word)
      = word_of_int (js_shl (sint w) 5) - word_of_int (sint w) + word_of_int (uint c)"
    by simp
  also have "\<dots> = w * 32 - w + ucast c"
    by (simp only: word_of_int_js_shl5 s ucast_eq)
  also have "\<dots> = w * 31 + ucast c"
    by simp
  finally have eq: "(word_of_int (js_shl (sint w) 5 - sint w + uint c) :: 32 word)
      = w * 31 + ucast c" .
  show ?thesis
    unfolding hash_step_def by (simp only: sint_word_of_int_ToInt32 [symmetric] eq)
qed

lemma foldl_hash_step_word:
  "foldl hash_step (sint (w :: 32 word)) str
     = sint (foldl (\<lambda>acc c. acc * 31 + ucast c) w str)"
  by (induction str arbitrary: w) (simp_all add: hash_step_word)

lemma hashString_eq_hash_spec: "hashString str = hash_spec str"
  using foldl_hash_step_word [of 0 str] by (simp add: hashString_def hash_spec_def)

text \<open>
  Every intermediate number of a loop step is an integer below \<open>2^53\<close> in absolute value, so
  the double arithmetic of the source computes it exactly.
\<close>

lemma hash_step_exact:
  assumes "- 2147483648 \<le> h" "h < 2147483648"
  shows "\<bar>js_shl h 5 - h + uint (c :: jschar)\<bar> < 2 ^ 53"
proof -
  have a: "- 2147483648 \<le> js_shl h 5" "js_shl h 5 < 2147483648"
    unfolding js_shl_def using ToInt32_range [of "ToInt32 h * 2 ^ (5 mod 32)"] by simp_all
  have b: "0 \<le> uint c" "uint c < 65536"
    using uint_bounded [of c] by simp_all
  have "js_shl h 5 - h + uint c < 9007199254740992"
       "- 9007199254740992 < js_shl h 5 - h + uint c"
    using a b assms by linarith+
  then show ?thesis by (simp add: abs_less_iff)
qed

lemma foldl_hash_step_range:
  "- 2147483648 \<le> h \<Longrightarrow> h < 2147483648 \<Longrightarrow>
   - 2147483648 \<le> foldl hash_step h str \<and> foldl hash_step h str < 2147483648"
proof (induction str arbitrary: h)
  case Nil
  then show ?case by simp
next
  case (Cons c cs)
  have "- 2147483648 \<le> hash_step h c" "hash_step h c < 2147483648"
    unfolding hash_step_def using ToInt32_range [of "js_shl h 5 - h + uint c"] by simp_all
  then show ?case using Cons.IH [of "hash_step h c"] by simp
qed

lemma hashString_range: "0 \<le> hashString str \<and> hashString str \<le> 2147483648"
  using foldl_hash_step_range [of 0 str] by (simp add: hashString_def abs_le_iff)

text \<open>
  The upper end is reached: the accumulator of this string ends at \<open>- 2^31\<close>, whose
  \<open>Math.abs\<close> is \<open>2^31\<close>, a number that fits 32 bits unsigned and not 32 bits signed.
\<close>

lemma hashString_polygenelubricants:
  "hashString (js ''polygenelubricants'') = 2147483648"
  by (simp add: hashString_def js_def hash_step_def js_shl_def ToInt32_def)

section \<open>Facts about wrapText\<close>

lemma split_space_ne: "split_space t \<noteq> []"
  by (induction t) (auto split: list.splits)

lemma split_space_no_space: "w \<in> set (split_space t) \<Longrightarrow> 32 \<notin> set w"
proof (induction t arbitrary: w)
  case Nil
  then show ?case by simp
next
  case (Cons c cs)
  show ?case
  proof (cases "c = 32")
    case True
    with Cons show ?thesis by auto
  next
    case False
    obtain v vs where s: "split_space cs = v # vs"
      using split_space_ne [of cs] by (cases "split_space cs") auto
    with False Cons.prems have "w = c # v \<or> w \<in> set vs" by auto
    then show ?thesis
    proof
      assume "w = c # v"
      moreover have "32 \<notin> set v" using Cons.IH [of v] s by simp
      ultimately show ?thesis using False by auto
    next
      assume "w \<in> set vs"
      then show ?thesis using Cons.IH [of w] s by simp
    qed
  qed
qed

lemma wrap_step_cases:
  "wrap_step mw m (lines, current) w =
     (if current = [] then (lines, w)
      else if mw < m (current @ js '' '' @ w) then (lines @ [current], w)
      else (lines, current @ js '' '' @ w))"
  unfolding wrap_step_def Let_def by simp

lemma wrap_step_inv:
  assumes a: "\<forall>l \<in> set lines. line_ok mw m W l" and b: "current = [] \<or> line_ok mw m W current"
    and c: "w \<in> W"
    and d: "wrap_step mw m (lines, current) w = (lines', current')"
  shows "(\<forall>l \<in> set lines'. line_ok mw m W l) \<and> (current' = [] \<or> line_ok mw m W current')"
proof -
  have w: "w = [] \<or> line_ok mw m W w"
    using c by (simp add: line_ok_def)
  consider (empty) "current = []"
    | (push) "current \<noteq> []" "mw < m (current @ js '' '' @ w)"
    | (extend) "current \<noteq> []" "\<not> mw < m (current @ js '' '' @ w)"
    by blast
  then show ?thesis
  proof cases
    case empty
    then have "lines' = lines" "current' = w"
      using d by (simp_all add: wrap_step_cases)
    then show ?thesis using a w by simp
  next
    case push
    then have "lines' = lines @ [current]" "current' = w"
      using d by (simp_all add: wrap_step_cases)
    then show ?thesis using a b w push(1) by simp
  next
    case extend
    then have e: "lines' = lines" "current' = current @ js '' '' @ w"
      using d by (simp_all add: wrap_step_cases)
    have "line_ok mw m W (current @ js '' '' @ w)"
      using extend by (simp add: line_ok_def)
    then show ?thesis using a e by simp
  qed
qed

lemma wrap_fold_inv:
  assumes "set ws \<subseteq> W" "\<forall>l \<in> set lines. line_ok mw m W l" "current = [] \<or> line_ok mw m W current"
    and "foldl (wrap_step mw m) (lines, current) ws = (lines', current')"
  shows "(\<forall>l \<in> set lines'. line_ok mw m W l) \<and> (current' = [] \<or> line_ok mw m W current')"
  using assms
proof (induction ws arbitrary: lines current)
  case Nil
  then show ?case by simp
next
  case (Cons w ws)
  obtain l1 c1 where s: "wrap_step mw m (lines, current) w = (l1, c1)"
    by (cases "wrap_step mw m (lines, current) w")
  have "(\<forall>l \<in> set l1. line_ok mw m W l) \<and> (c1 = [] \<or> line_ok mw m W c1)"
    using wrap_step_inv [OF Cons.prems(2) Cons.prems(3) _ s] Cons.prems(1) by simp
  then show ?case
    using Cons.IH [of l1 c1] Cons.prems(1) Cons.prems(4) s by simp
qed

lemma wrapText_lines_ok:
  assumes "l \<in> set (wrapText text mw m)"
  shows "line_ok mw m (set (split_space text)) l"
proof -
  obtain lines current where f: "foldl (wrap_step mw m) ([], []) (split_space text) = (lines, current)"
    by (cases "foldl (wrap_step mw m) ([], []) (split_space text)")
  have inv: "(\<forall>l \<in> set lines. line_ok mw m (set (split_space text)) l)
      \<and> (current = [] \<or> line_ok mw m (set (split_space text)) current)"
    using wrap_fold_inv [of "split_space text" "set (split_space text)" "[]" mw m "[]" lines current] f
    by simp
  have "l \<in> set (if current \<noteq> [] then lines @ [current] else lines)"
    using assms f unfolding wrapText_def by (auto dest: in_set_takeD)
  then show ?thesis using inv by (auto split: if_splits)
qed

lemma wrapText_length: "length (wrapText text mw m) \<le> 4"
  unfolding wrapText_def by (simp split: prod.splits)

lemma wrapText_empty: "wrapText [] mw m = []"
  unfolding wrapText_def by (simp add: wrap_step_cases)

lemma wrap_example:
  "wrapText (js ''A dark biomechanical lord awakens amidst thunder'') 100 narrow_measure
     = [js ''A dark'', js ''biomechanical'', js ''lord'', js ''awakens'']"
  by (simp add: wrapText_def wrap_step_cases js_def narrow_measure_def)

section \<open>Facts about the master gain envelope\<close>

lemma master_gain_events_ge2:
  "2 \<le> d \<Longrightarrow> master_gain_events d =
     [SetValueAtTime 0 0, LinearRampToValueAtTime (8 / 10) 1,
      LinearRampToValueAtTime (6 / 10) (d - 1), LinearRampToValueAtTime 0 d]"
  unfolding master_gain_events_def by simp

lemma master_gain_first: "2 \<le> d \<Longrightarrow> 0 \<le> t \<Longrightarrow> t < 1 \<Longrightarrow> master_gain d t = 8 / 10 * t"
  unfolding master_gain_def by (simp add: master_gain_events_ge2)

lemma master_gain_second:
  "2 \<le> d \<Longrightarrow> 1 \<le> t \<Longrightarrow> t < d - 1 \<Longrightarrow>
   master_gain d t = 8 / 10 + (6 / 10 - 8 / 10) * ((t - 1) / (d - 2))"
  unfolding master_gain_def by (simp add: master_gain_events_ge2)

lemma master_gain_third:
  "2 \<le> d \<Longrightarrow> d - 1 \<le> t \<Longrightarrow> t < d \<Longrightarrow>
   master_gain d t = 6 / 10 + (0 - 6 / 10) * (t - (d - 1))"
  unfolding master_gain_def by (simp add: master_gain_events_ge2)

lemma master_gain_after: "2 \<le> d \<Longrightarrow> d \<le> t \<Longrightarrow> master_gain d t = 0"
  unfolding master_gain_def by (simp add: master_gain_events_ge2)

lemma master_gain_2_1: "master_gain 2 1 = 6 / 10"
  using master_gain_third [of 2 1] by simp

section \<open>Facts about double-precision rounding\<close>

lemma two_powi_pos [simp]: "0 < (2::real) powi k"
  by (simp add: zero_less_power_int)

lemma two_powi_less_imp: "(2::real) powi m \<le> a \<Longrightarrow> a < 2 powi n \<Longrightarrow> m < n"
proof (rule ccontr)
  assume a: "(2::real) powi m \<le> a" "a < 2 powi n" and "\<not> m < n"
  then have "n \<le> m" by simp
  then have "(2::real) powi n \<le> 2 powi m" by (intro power_int_increasing) simp_all
  with a show False by simp
qed

lemma double_exponent_bounds:
  assumes "0 < x"
  shows "2 powi (double_exponent x) \<le> x \<and> x < 2 powi (double_exponent x + 1)"
proof (cases "1 \<le> x")
  case True
  define n where "n = \<lfloor>x\<rfloor>"
  have n: "0 < n" "real_of_int n \<le> x" "x < real_of_int n + 1"
    using True by (simp_all add: n_def)
  have e: "double_exponent x = bitlen n - 1"
    using True by (simp add: double_exponent_def n_def)
  have b: "2 ^ nat (bitlen n - 1) \<le> n" "n < 2 ^ nat (bitlen n)"
    using bitlen_bounds [OF n(1)] by simp_all
  have k: "1 \<le> bitlen n"
    using n(1) bitlen_eq_zero_iff [of n] bitlen_nonneg [of n] by linarith
  have p: "(2::real) powi (bitlen n - 1) = 2 ^ nat (bitlen n - 1)"
    using k by (simp add: power_int_nonneg_exp)
  have "real_of_int (2 ^ nat (bitlen n - 1)) \<le> real_of_int n"
    using b(1) by (simp only: of_int_le_iff)
  moreover have "real_of_int (2 ^ nat (bitlen n - 1)) = 2 ^ nat (bitlen n - 1)" by simp
  ultimately have lo: "(2::real) powi (bitlen n - 1) \<le> x" using n(2) p by linarith
  have "real_of_int n + 1 \<le> real_of_int (2 ^ nat (bitlen n))"
    using b(2) by (metis of_int_1 of_int_add of_int_le_iff zless_imp_add1_zle)
  also have "\<dots> = (2::real) powi (bitlen n - 1 + 1)"
    using k by (simp add: power_int_nonneg_exp)
  finally have hi: "x < (2::real) powi (bitlen n - 1 + 1)" using n(3) by simp
  show ?thesis using lo hi e by simp
next
  case False
  define y where "y = 1 / x"
  define c where "c = \<lceil>y\<rceil> - 1"
  have y: "1 < y" using False assms by (simp add: y_def)
  have c: "0 < c" "real_of_int c < y" "y \<le> real_of_int c + 1"
    using y by (simp_all add: c_def) linarith+
  have e: "double_exponent x = - bitlen c"
    using False by (simp add: double_exponent_def c_def y_def)
  have b: "2 ^ nat (bitlen c - 1) \<le> c" "c < 2 ^ nat (bitlen c)"
    using bitlen_bounds [OF c(1)] by simp_all
  have k: "1 \<le> bitlen c"
    using c(1) bitlen_eq_zero_iff [of c] bitlen_nonneg [of c] by linarith
  have "real_of_int c + 1 \<le> real_of_int (2 ^ nat (bitlen c))"
    using b(2) by (metis of_int_1 of_int_add of_int_le_iff zless_imp_add1_zle)
  then have "y \<le> 2 ^ nat (bitlen c)" using c(3) by simp
  then have "1 / 2 ^ nat (bitlen c) \<le> x"
    using assms by (simp add: y_def field_simps)
  moreover have "(2::real) powi (- bitlen c) = 1 / 2 ^ nat (bitlen c)"
    using k by (simp add: power_int_minus_divide power_int_nonneg_exp)
  ultimately have lo: "(2::real) powi (- bitlen c) \<le> x" by simp
  have "real_of_int (2 ^ nat (bitlen c - 1)) \<le> real_of_int c"
    using b(1) by (simp only: of_int_le_iff)
  moreover have "real_of_int (2 ^ nat (bitlen c - 1)) = 2 ^ nat (bitlen c - 1)" by simp
  ultimately have "2 ^ nat (bitlen c - 1) < y" using c(2) by linarith
  then have "x < 1 / 2 ^ nat (bitlen c - 1)"
    using assms by (simp add: y_def field_simps)
  moreover have "(2::real) powi (- bitlen c + 1) = 1 / 2 ^ nat (bitlen c - 1)"
  proof -
    have "(2::real) powi (- bitlen c + 1) = 2 powi (- (bitlen c - 1))" by simp
    also have "\<dots> = 1 / 2 powi (bitlen c - 1)" by (rule power_int_minus_divide)
    also have "\<dots> = 1 / 2 ^ nat (bitlen c - 1)" using k by (simp add: power_int_nonneg_exp)
    finally show ?thesis .
  qed
  ultimately have hi: "x < (2::real) powi (- bitlen c + 1)" by simp
  show ?thesis using lo hi e by simp
qed

lemma round_half_even_error: "\<bar>real_of_int (round_half_even y) - y\<bar> \<le> 1 / 2"
proof -
  have "real_of_int \<lfloor>y\<rfloor> \<le> y" "y < real_of_int \<lfloor>y\<rfloor> + 1" by linarith+
  then show ?thesis unfolding round_half_even_def Let_def by (auto simp: abs_le_iff)
qed

lemma round_half_even_of_int [simp]: "round_half_even (real_of_int n) = n"
  by (simp add: round_half_even_def)

lemma round_magnitude_error:
  assumes "2 powi (- 1022) \<le> a"
  shows "\<bar>round_magnitude a - a\<bar> \<le> a / 2 ^ 53"
proof -
  define e where "e = double_exponent a"
  define q where "q = e - 52"
  define z where "z = a / 2 powi q"
  have a: "0 < a" using assms two_powi_pos [of "- 1022"] by linarith
  have b: "2 powi e \<le> a" "a < 2 powi (e + 1)"
    using double_exponent_bounds [OF a] by (simp_all add: e_def)
  have "- 1022 < e + 1" using assms b(2) by (rule two_powi_less_imp)
  then have m: "max (e - 52) (- 1074) = q" by (simp add: q_def)
  have r: "round_magnitude a = real_of_int (round_half_even z) * 2 powi q"
    unfolding round_magnitude_def Let_def z_def using m by (simp add: e_def)
  have az: "a = z * 2 powi q" by (simp add: z_def)
  have "(real_of_int (round_half_even z) - z) * 2 powi q
      = real_of_int (round_half_even z) * 2 powi q - z * 2 powi q"
    by (rule left_diff_distrib)
  also have "z * 2 powi q = a" by (simp add: z_def)
  finally have "round_magnitude a - a = (real_of_int (round_half_even z) - z) * 2 powi q"
    using r by simp
  then have "\<bar>round_magnitude a - a\<bar> = \<bar>real_of_int (round_half_even z) - z\<bar> * 2 powi q"
    by (simp add: abs_mult)
  also have "\<dots> \<le> 1 / 2 * 2 powi q"
    using round_half_even_error [of z] by (intro mult_right_mono) simp_all
  also have "(2::real) powi q = 2 powi e / 2 ^ 52"
    unfolding q_def by (simp add: power_int_diff)
  also have "1 / 2 * (2 powi e / 2 ^ 52) \<le> 1 / 2 * (a / 2 ^ 52)"
    using b(1) by (simp add: divide_right_mono)
  finally show ?thesis by simp
qed

lemma round_magnitude_of_int:
  assumes "0 < n" "n < 2 ^ 53"
  shows "round_magnitude (real_of_int n) = real_of_int n"
proof -
  define e where "e = double_exponent (real_of_int n)"
  have a: "0 < real_of_int n" using assms by simp
  have b: "2 powi e \<le> real_of_int n" "real_of_int n < 2 powi (e + 1)"
    using double_exponent_bounds [OF a] by (simp_all add: e_def)
  have "(2::real) powi 0 \<le> real_of_int n" using assms by simp
  then have e0: "0 < e + 1" using b(2) by (rule two_powi_less_imp)
  have "real_of_int n < 2 powi 53" using assms(2) by simp
  with b(1) have e1: "e < 53" by (rule two_powi_less_imp)
  define k where "k = nat (52 - e)"
  have q: "max (e - 52) (- 1074) = - int k" using e0 e1 by (simp add: k_def)
  have p: "(2::real) powi (- int k) = 1 / 2 ^ k"
    by (simp add: power_int_minus_divide)
  have "real_of_int n / 2 powi (- int k) = real_of_int (n * 2 ^ k)"
    by (simp add: p)
  then have "round_half_even (real_of_int n / 2 powi (- int k)) = n * 2 ^ k"
    by (simp only: round_half_even_of_int)
  then show ?thesis
    unfolding round_magnitude_def Let_def using q by (simp add: e_def p)
qed

lemma to_double_of_int:
  assumes "0 \<le> n" "n < 2 ^ 53"
  shows "to_double (real_of_int n) = Num (real_of_int n)"
proof (cases "n = 0")
  case True
  then show ?thesis by (simp add: to_double_def)
next
  case False
  then have n: "0 < n" using assms by simp
  have r: "round_magnitude \<bar>real_of_int n\<bar> = real_of_int n"
    using round_magnitude_of_int [OF n assms(2)] n by simp
  have "real_of_int n < 2 ^ 53" using assms(2) by simp
  also have "(2::real) ^ 53 \<le> 2 ^ 1024" by (intro power_increasing) simp_all
  finally have "\<not> 2 powi 1024 \<le> real_of_int n" by simp
  then show ?thesis using n r by (simp add: to_double_def)
qed

lemma to_double_ordinary:
  assumes "2 powi (- 1022) \<le> x" "x \<le> 2 ^ 1000"
  shows "\<exists>r. to_double x = Num r \<and> \<bar>r - x\<bar> \<le> x / 2 ^ 53"
proof -
  have x: "0 < x" using assms two_powi_pos [of "- 1022"] by linarith
  have e: "\<bar>round_magnitude x - x\<bar> \<le> x / 2 ^ 53"
    using assms(1) by (rule round_magnitude_error)
  have "x / 2 ^ 53 \<le> x" using x by (simp add: field_simps)
  then have "round_magnitude x \<le> 2 * x" using e by linarith
  also have "\<dots> \<le> 2 * 2 ^ 1000" using assms(2) by simp
  also have "\<dots> = (2::real) ^ 1001" by simp
  also have "\<dots> < 2 ^ 1024" by (intro power_strict_increasing) simp_all
  finally have "\<not> 2 powi 1024 \<le> round_magnitude x" by simp
  then have "to_double x = Num (round_magnitude x)"
    using x by (simp add: to_double_def)
  then show ?thesis using e by simp
qed

lemma stop_delay_ordinary:
  assumes "1 / 10 ^ 6 \<le> d" "d \<le> 10 ^ 9"
  shows "\<exists>y. times_double (to_double d) (Num 1000) = Num y
           \<and> \<bar>y - d * 1000\<bar> \<le> d * 1000 / 2 ^ 51
           \<and> stop_delay_ms d = Num (real_of_int (\<lceil>y\<rceil> + 100))"
proof -
  have tiny: "(2::real) powi (- 1022) \<le> 1 / 10 ^ 7"
  proof -
    have "(2::real) powi (- 1022) \<le> 2 powi (- 24)"
      by (intro power_int_increasing) simp_all
    also have "\<dots> = 1 / 2 ^ 24" by (simp add: power_int_minus_divide)
    also have "\<dots> \<le> 1 / 10 ^ 7" by simp
    finally show ?thesis .
  qed
  have huge: "(10::real) ^ 13 \<le> 2 ^ 1000"
  proof -
    have "(10::real) ^ 13 \<le> 2 ^ 44" by simp
    also have "\<dots> \<le> 2 ^ 1000" by (intro power_increasing) simp_all
    finally show ?thesis .
  qed
  have d0: "0 < d" using assms(1) by (smt (verit) divide_pos_pos zero_less_power zero_less_numeral zero_less_one)
  have "2 powi (- 1022) \<le> d" using tiny assms(1) by simp
  moreover have "d \<le> 2 ^ 1000" using huge assms(2) by simp
  ultimately obtain d' where d': "to_double d = Num d'" "\<bar>d' - d\<bar> \<le> d / 2 ^ 53"
    using to_double_ordinary [of d] by blast
  have s: "d / 2 ^ 53 \<le> d / 2" using d0 by (simp add: field_simps)
  have d'b: "d / 2 \<le> d'" "d' \<le> 2 * d" using d'(2) s by linarith+
  define P where "P = d' * 1000"
  have Pb: "1 / 10 ^ 7 \<le> P" "P \<le> 10 ^ 13"
    using d'b assms by (simp_all add: P_def)
  have P0: "0 < P" using d'b d0 by (simp add: P_def)
  have "2 powi (- 1022) \<le> P" using tiny Pb(1) by simp
  moreover have "P \<le> 2 ^ 1000" using huge Pb(2) by simp
  ultimately obtain y where y: "to_double P = Num y" "\<bar>y - P\<bar> \<le> P / 2 ^ 53"
    using to_double_ordinary [of P] by blast
  have t: "times_double (to_double d) (Num 1000) = Num y"
    using d'(1) y(1) by (simp add: P_def)
  have sP: "P / 2 ^ 53 \<le> P / 2" using P0 by (simp add: field_simps)
  have yb: "0 < y" "y \<le> 2 * 10 ^ 13" using y(2) sP Pb P0 by linarith+
  define c where "c = \<lceil>y\<rceil>"
  have c: "0 < c" "real_of_int c < y + 1" using yb(1) by (simp_all add: c_def) linarith
  have "real_of_int c < 2 * 10 ^ 13 + 1" using c(2) yb(2) by linarith
  then have "c < 2 * 10 ^ 13 + 1" by (simp only: flip: of_int_less_iff [where ?'a = real]) simp
  then have cb: "0 \<le> c + 100" "c + 100 < 2 ^ 53" using c(1) by simp_all
  have "stop_delay_ms d = plus_double (Num (real_of_int c)) (Num 100)"
    unfolding stop_delay_ms_def t by (simp add: c_def)
  also have "\<dots> = to_double (real_of_int (c + 100))" by simp
  also have "\<dots> = Num (real_of_int (c + 100))" using cb by (rule to_double_of_int)
  finally have sd: "stop_delay_ms d = Num (real_of_int (\<lceil>y\<rceil> + 100))" by (simp add: c_def)
  have "y - d * 1000 = (y - P) + (d' - d) * 1000"
    by (simp add: P_def algebra_simps)
  then have tri: "\<bar>y - d * 1000\<bar> \<le> \<bar>y - P\<bar> + \<bar>(d' - d) * 1000\<bar>"
    by (simp only: abs_triangle_ineq)
  have m: "\<bar>(d' - d) * 1000\<bar> = \<bar>d' - d\<bar> * 1000"
    by (simp only: abs_mult abs_numeral)
  have "P \<le> 2000 * d" using d'b(2) by (simp add: P_def)
  then have "P / 2 ^ 53 \<le> 2000 * d / 2 ^ 53" by (rule divide_right_mono) simp
  then have b1: "\<bar>y - P\<bar> \<le> 2000 * d / 2 ^ 53" using y(2) by linarith
  have b2: "\<bar>d' - d\<bar> * 1000 \<le> 1000 * d / 2 ^ 53" using d'(2) by simp
  have "2000 * d / 2 ^ 53 + 1000 * d / 2 ^ 53 \<le> d * 1000 / 2 ^ 51"
    using d0 by (simp add: field_simps)
  then have "\<bar>y - d * 1000\<bar> \<le> d * 1000 / 2 ^ 51"
    using tri m b1 b2 by linarith
  then show ?thesis using t sd by blast
qed

text \<open>
  The stop delay at three durations: 3 seconds, the double nearest to 1.1 seconds, and
  177723 frames at 44100 frames a second. At the last two the double product \<open>d * 1000\<close>
  differs from the real one, and the delay is the one of the double.
\<close>

lemma stop_delay_3: "stop_delay_ms 3 = Num 3100"
proof -
  have "to_double 3 = Num 3" using to_double_of_int [of 3] by simp
  moreover have "to_double 3000 = Num 3000" using to_double_of_int [of 3000] by simp
  moreover have "to_double 3100 = Num 3100" using to_double_of_int [of 3100] by simp
  ultimately show ?thesis by (simp add: stop_delay_ms_def)
qed

lemma bitlen_eqI: "2 ^ k \<le> n \<Longrightarrow> n < 2 ^ Suc k \<Longrightarrow> bitlen n = int k + 1"
  using bitlen_twopow_add_eq [of "n - 2 ^ k" k] by simp

lemma bitlen_values: "bitlen 1 = 1" "bitlen 4 = 3" "bitlen 1100 = 11" "bitlen 4030 = 12"
  using bitlen_eqI [of 0 1] bitlen_eqI [of 2 4] bitlen_eqI [of 10 1100] bitlen_eqI [of 11 4030]
  by simp_all

lemma to_double_11_10: "to_double (11 / 10) = Num (4953959590107546 / 2 ^ 52)"
  by (simp add: to_double_def round_magnitude_def double_exponent_def round_half_even_def
      Let_def bitlen_values power_int_minus_divide)

lemma stop_delay_11_10: "stop_delay_ms (11 / 10) = Num 1200"
proof -
  have "to_double (4953959590107546 / 2 ^ 52 * 1000) = Num 1100"
    by (simp add: to_double_def round_magnitude_def double_exponent_def round_half_even_def
        Let_def bitlen_values power_int_minus_divide)
  moreover have "to_double 1200 = Num 1200" using to_double_of_int [of 1200] by simp
  ultimately show ?thesis by (simp add: stop_delay_ms_def to_double_11_10)
qed

lemma to_double_403_100: "to_double (403 / 100) = Num (4537376624575775 / 2 ^ 50)"
  by (simp add: to_double_def round_magnitude_def double_exponent_def round_half_even_def
      Let_def bitlen_values power_int_minus_divide)

lemma stop_delay_403_100: "stop_delay_ms (177723 / 44100) = Num 4131"
proof -
  have "to_double (4537376624575775 / 2 ^ 50 * 1000) = Num (8862063719874561 / 2 ^ 41)"
    by (simp add: to_double_def round_magnitude_def double_exponent_def round_half_even_def
        Let_def bitlen_values power_int_minus_divide)
  moreover have "to_double 4131 = Num 4131" using to_double_of_int [of 4131] by simp
  ultimately show ?thesis by (simp add: stop_delay_ms_def to_double_403_100)
qed

section \<open>Facts about the merge\<close>

lemma stop_delay_bounds:
  assumes "1 / 10 ^ 6 \<le> d" "d \<le> 10 ^ 9"
  shows "\<exists>v. stop_delay_ms d = Num v
           \<and> d * 1000 * (1 - 1 / 2 ^ 51) + 100 \<le> v
           \<and> v < d * 1000 * (1 + 1 / 2 ^ 51) + 101"
proof -
  define E where "E = d * 1000 / 2 ^ 51"
  obtain y where y: "\<bar>y - d * 1000\<bar> \<le> E"
      "stop_delay_ms d = Num (real_of_int (\<lceil>y\<rceil> + 100))"
    using stop_delay_ordinary [OF assms] unfolding E_def by blast
  have c: "y \<le> real_of_int \<lceil>y\<rceil>" "real_of_int \<lceil>y\<rceil> < y + 1" by linarith+
  have e: "d * 1000 * (1 - 1 / 2 ^ 51) = d * 1000 - E"
          "d * 1000 * (1 + 1 / 2 ^ 51) = d * 1000 + E"
    unfolding E_def by (simp_all only: right_diff_distrib distrib_left mult_1_right times_divide_eq_right)
  have s: "real_of_int (\<lceil>y\<rceil> + 100) = real_of_int \<lceil>y\<rceil> + 100" by simp
  have "d * 1000 - E + 100 \<le> real_of_int (\<lceil>y\<rceil> + 100)"
       "real_of_int (\<lceil>y\<rceil> + 100) < d * 1000 + E + 101"
    using y(1) c s by linarith+
  then show ?thesis using y(2) e by (simp only:) blast
qed

lemma timers_renderMergedAV:
  "decodeAudioData bytes = Some d \<Longrightarrow>
   timers (fst (renderMergedAV decodeAudioData p (Some bytes) fps))
     = [(StartAudioSource, Num 50), (StopRecorder, stop_delay_ms d)]"
  by (simp add: renderMergedAV_def timers_def List.map_filter_simps)

lemma renderMergedAV_null:
  "renderMergedAV decodeAudioData p None fps = ([NewAudioContext], Inl TypeError)"
  by (simp add: renderMergedAV_def)

lemma mergeAndPreview_guard:
  "audioBlob st = None \<Longrightarrow>
   mergeAndPreview decodeAudioData st = ([Alert (js ''Generate audio first.'')], Inr (), st)"
  by (simp add: mergeAndPreview_def)

lemma mergeAndPreview_returns: "fst (snd (mergeAndPreview decodeAudioData st)) = Inr ()"
  by (simp add: mergeAndPreview_def split: prod.splits sum.splits)

lemma mergeAndPreview_starts_media:
  "(filter starts_media (fst (mergeAndPreview decodeAudioData st)) = []) = (audioBlob st = None)"
proof (cases "audioBlob st")
  case None
  then show ?thesis by (simp add: mergeAndPreview_guard)
next
  case (Some bytes)
  show ?thesis
  proof (cases "decodeAudioData bytes")
    case None
    then show ?thesis using Some by (simp add: mergeAndPreview_def renderMergedAV_def)
  next
    case (Some d)
    then show ?thesis using \<open>audioBlob st = Some bytes\<close>
      by (simp add: mergeAndPreview_def renderMergedAV_def)
  qed
qed

section \<open>Facts about DataView writes\<close>

lemma length_put [simp]: "length (put view off bs) = length view"
  by (induction bs arbitrary: view off) simp_all

lemma nth_put:
  "off + length bs \<le> length view \<Longrightarrow>
   put view off bs ! j = (if off \<le> j \<and> j < off + length bs then bs ! (j - off) else view ! j)"
proof (induction bs arbitrary: view off)
  case Nil
  then show ?case by auto
next
  case (Cons b bs)
  have r: "Suc off + length bs \<le> length (view[off := b])"
    using Cons.prems by simp
  have step: "put (view[off := b]) (Suc off) bs ! j =
      (if Suc off \<le> j \<and> j < Suc off + length bs then bs ! (j - Suc off)
       else view[off := b] ! j)"
    by (rule Cons.IH [OF r])
  consider (at) "j = off" | (below) "j < off" | (above) "Suc off \<le> j"
    by linarith
  then show ?case
  proof cases
    case at
    have "off < length view" using Cons.prems by simp
    then show ?thesis using at step by simp
  next
    case below
    then show ?thesis using step by simp
  next
    case above
    then obtain d where d: "j = Suc off + d"
      using le_Suc_ex by blast
    show ?thesis using step unfolding d by simp
  qed
qed

lemma length_region: "length (region view off k) = min k (length view - off)"
  by (simp add: region_def)

lemma nth_region: "i < k \<Longrightarrow> off + i < length view \<Longrightarrow> region view off k ! i = view ! (off + i)"
  by (simp add: region_def)

lemma region_put_same:
  assumes "off + length bs \<le> length view" "k = length bs"
  shows "region (put view off bs) off k = bs"
proof (rule nth_equalityI)
  show "length (region (put view off bs) off k) = length bs"
    using assms by (simp add: length_region)
next
  fix i assume "i < length (region (put view off bs) off k)"
  then have i: "i < length bs" using assms by (simp add: length_region)
  then have "region (put view off bs) off k ! i = put view off bs ! (off + i)"
    using assms by (simp add: nth_region)
  also have "\<dots> = bs ! i"
    using assms i by (simp add: nth_put)
  finally show "region (put view off bs) off k ! i = bs ! i" .
qed

lemma region_put_other:
  assumes "off + length bs \<le> length view" "p + k \<le> off \<or> off + length bs \<le> p"
  shows "region (put view off bs) p k = region view p k"
proof (rule nth_equalityI)
  show "length (region (put view off bs) p k) = length (region view p k)"
    by (simp add: length_region)
next
  fix i assume "i < length (region (put view off bs) p k)"
  then have i: "i < k" "p + i < length view" by (auto simp: length_region)
  then have "region (put view off bs) p k ! i = put view off bs ! (p + i)"
    by (simp add: nth_region)
  also have "\<dots> = view ! (p + i)"
    using assms i by (auto simp: nth_put)
  also have "\<dots> = region view p k ! i"
    using i by (simp add: nth_region)
  finally show "region (put view off bs) p k ! i = region view p k ! i" .
qed

lemma length_le_bytes [simp]: "length (le_bytes k v) = k"
  by (induction k arbitrary: v) simp_all

lemma le_value_le_bytes: "le_value (le_bytes k v) = v mod 256 ^ k"
proof (induction k arbitrary: v)
  case 0
  then show ?case by simp
next
  case (Suc k)
  have "unat (word_of_nat (v mod 256) :: byte) = v mod 256"
    by (simp add: unat_of_nat)
  then have "le_value (le_bytes (Suc k) v) = v mod 256 + 256 * (v div 256 mod 256 ^ k)"
    using Suc.IH [of "v div 256"] by simp
  also have "\<dots> = v mod (256 * 256 ^ k)"
    by (simp add: mod_mult2_eq)
  finally show ?case by simp
qed

lemma le_bytes_1: "le_bytes 1 v = [word_of_nat (v mod 256)]"
  by (simp only: One_nat_def le_bytes.simps)

lemma setUint8_ok:
  "off + 1 \<le> length view \<Longrightarrow> setUint8 view off v = Some (view[off := word_of_nat (v mod 256)])"
  by (simp add: setUint8_def put_bytes_def le_bytes_1)

lemma setUint16_ok:
  "off + 2 \<le> length view \<Longrightarrow>
   setUint16 view off v True = Some (put view off (le_bytes 2 (v mod 65536)))"
  by (simp add: setUint16_def put_bytes_def endian_def)

lemma setUint32_ok:
  "off + 4 \<le> length view \<Longrightarrow>
   setUint32 view off v True = Some (put view off (le_bytes 4 (v mod 4294967296)))"
  by (simp add: setUint32_def put_bytes_def endian_def)

lemma setInt16_ok:
  "off + 2 \<le> length view \<Longrightarrow>
   setInt16 view off x True = Some (put view off (le_bytes 2 (nat (ToInt16 x mod 65536))))"
  by (simp add: setInt16_def put_bytes_def endian_def)

lemma writeString_ok:
  "offset + length s \<le> length view \<Longrightarrow>
   writeString view offset s = Some (put view offset (char_bytes s))"
proof (induction s arbitrary: view offset)
  case Nil
  then show ?case by (simp add: char_bytes_def)
next
  case (Cons c cs)
  have "setUint8 view offset (unat c) = Some (view[offset := word_of_nat (unat c mod 256)])"
    using Cons.prems by (simp add: setUint8_ok)
  moreover have "offset + 1 + length cs \<le> length (view[offset := word_of_nat (unat c mod 256)])"
    using Cons.prems by simp
  ultimately show ?case
    using Cons.IH [of "offset + 1" "view[offset := word_of_nat (unat c mod 256)]"]
    by (simp add: char_bytes_def)
qed

lemma length_char_bytes [simp]: "length (char_bytes s) = length s"
  by (simp add: char_bytes_def)

lemma length_js [simp]: "length (js s) = length s"
  by (simp add: js_def)

section \<open>Facts about the encoder\<close>

lemma write_header_ok:
  assumes "44 \<le> length view"
  shows "\<exists>h. write_header view c r n = Some h \<and> length h = length view
    \<and> region h 4 4 = le_bytes 4 ((36 + n * (c * 2)) mod 4294967296)"
  using assms unfolding write_header_def Let_def
  by (simp add: writeString_ok setUint32_ok setUint16_ok region_put_other region_put_same)

lemma write_pcm_ok:
  "idx + 2 * length xs \<le> length view \<Longrightarrow>
   \<exists>v'. write_pcm xs idx view = Some v' \<and> length v' = length view
     \<and> (\<forall>p k. p + k \<le> idx \<longrightarrow> region v' p k = region view p k)
     \<and> (\<forall>j < length xs. region v' (idx + 2 * j) 2
           = le_bytes 2 (nat (ToInt16 (pcm_sample (xs ! j)) mod 65536)))"
proof (induction xs arbitrary: idx view)
  case Nil
  then show ?case by simp
next
  case (Cons x xs)
  define bs where "bs = le_bytes 2 (nat (ToInt16 (pcm_sample x) mod 65536))"
  define v1 where "v1 = put view idx bs"
  have fit: "idx + 2 \<le> length view" using Cons.prems by simp
  have w: "setInt16 view idx (pcm_sample x) True = Some v1"
    using fit by (simp add: setInt16_ok v1_def bs_def)
  have len1: "length v1 = length view" by (simp add: v1_def)
  have "idx + 2 + 2 * length xs \<le> length v1" using Cons.prems len1 by simp
  from Cons.IH [OF this] obtain v' where v':
    "write_pcm xs (idx + 2) v1 = Some v'" "length v' = length v1"
    "\<forall>p k. p + k \<le> idx + 2 \<longrightarrow> region v' p k = region v1 p k"
    "\<forall>j < length xs. region v' (idx + 2 + 2 * j) 2
        = le_bytes 2 (nat (ToInt16 (pcm_sample (xs ! j)) mod 65536))"
    by blast
  have same: "region v1 idx 2 = bs"
    unfolding v1_def using fit by (simp add: region_put_same bs_def)
  have other: "region v1 p k = region view p k" if "p + k \<le> idx" for p k
    unfolding v1_def using fit that by (simp add: region_put_other bs_def)
  have a: "write_pcm (x # xs) idx view = Some v'"
    using w v'(1) by simp
  have b: "length v' = length view" using v'(2) len1 by simp
  have c: "region v' p k = region view p k" if "p + k \<le> idx" for p k
    using v'(3) other that by simp
  have d: "region v' (idx + 2 * j) 2
      = le_bytes 2 (nat (ToInt16 (pcm_sample ((x # xs) ! j)) mod 65536))"
    if "j < length (x # xs)" for j
  proof (cases j)
    case 0
    have "region v' idx 2 = region v1 idx 2" using v'(3) by simp
    then show ?thesis using 0 same by (simp add: bs_def)
  next
    case (Suc j')
    then have "j' < length xs" using that by simp
    then show ?thesis using v'(4) Suc by (simp add: add.commute add.left_commute)
  qed
  show ?case using a b c d by blast
qed

lemma inner_fold:
  assumes "ch < c"
  shows "length (fold (\<lambda>i acc'. acc'[i * c + ch := f i]) [0..<n] acc) = length acc
    \<and> (\<forall>k < length acc. fold (\<lambda>i acc'. acc'[i * c + ch := f i]) [0..<n] acc ! k
          = (if k mod c = ch \<and> k div c < n then f (k div c) else acc ! k))"
proof (induction n)
  case 0
  then show ?case by simp
next
  case (Suc n)
  let ?g = "\<lambda>i acc'. acc'[i * c + ch := f i]"
  have eq: "fold ?g [0..<Suc n] acc = (fold ?g [0..<n] acc)[n * c + ch := f n]"
    by simp
  have iff: "k = n * c + ch \<longleftrightarrow> k mod c = ch \<and> k div c = n" for k
    using assms by auto
  show ?case
  proof (intro conjI allI impI)
    show "length (fold ?g [0..<Suc n] acc) = length acc"
      using Suc by (simp only: eq length_list_update)
  next
    fix k assume k: "k < length acc"
    then have k': "k < length (fold ?g [0..<n] acc)" using Suc by simp
    show "fold ?g [0..<Suc n] acc ! k
        = (if k mod c = ch \<and> k div c < Suc n then f (k div c) else acc ! k)"
    proof (cases "k = n * c + ch")
      case True
      then have "k mod c = ch" "k div c = n" using iff [of k] by simp_all
      then show ?thesis unfolding eq using k' True by simp
    next
      case False
      then have "\<not> (k mod c = ch \<and> k div c = n)" using iff [of k] by simp
      then have "(k mod c = ch \<and> k div c < Suc n) = (k mod c = ch \<and> k div c < n)"
        by (auto simp: less_Suc_eq)
      then show ?thesis unfolding eq using Suc k False by (simp only: nth_list_update_neq)
    qed
  qed
qed

lemma outer_fold:
  assumes "m \<le> c"
  shows "length (fold (\<lambda>ch acc. fold (\<lambda>i acc'. acc'[i * c + ch := g ch i]) [0..<n] acc)
            [0..<m] acc) = length acc
    \<and> (\<forall>k < length acc.
          fold (\<lambda>ch acc. fold (\<lambda>i acc'. acc'[i * c + ch := g ch i]) [0..<n] acc) [0..<m] acc ! k
            = (if k mod c < m \<and> k div c < n then g (k mod c) (k div c) else acc ! k))"
  using assms
proof (induction m)
  case 0
  then show ?case by simp
next
  case (Suc m)
  let ?inner = "\<lambda>ch acc. fold (\<lambda>i acc'. acc'[i * c + ch := g ch i]) [0..<n] acc"
  let ?prev = "fold ?inner [0..<m] acc"
  have m: "m < c" "m \<le> c" using Suc.prems by simp_all
  have eq: "fold ?inner [0..<Suc m] acc = ?inner m ?prev" by simp
  have prev: "length ?prev = length acc"
    "\<forall>k < length acc. ?prev ! k
        = (if k mod c < m \<and> k div c < n then g (k mod c) (k div c) else acc ! k)"
    using Suc.IH [OF m(2)] by simp_all
  have inner: "length (?inner m ?prev) = length ?prev"
    "\<forall>k < length ?prev. ?inner m ?prev ! k
        = (if k mod c = m \<and> k div c < n then g m (k div c) else ?prev ! k)"
    using inner_fold [OF m(1), of "g m" n ?prev] by simp_all
  show ?case
  proof (intro conjI allI impI)
    show "length (fold ?inner [0..<Suc m] acc) = length acc"
      using inner(1) prev(1) by (simp only: eq)
  next
    fix k assume k: "k < length acc"
    have "fold ?inner [0..<Suc m] acc ! k
        = (if k mod c = m \<and> k div c < n then g m (k div c) else ?prev ! k)"
      using inner(2) k prev(1) by (simp only: eq)
    also have "\<dots> = (if k mod c < Suc m \<and> k div c < n then g (k mod c) (k div c) else acc ! k)"
      using prev(2) k by (auto simp: less_Suc_eq)
    finally show "fold ?inner [0..<Suc m] acc ! k
        = (if k mod c < Suc m \<and> k div c < n then g (k mod c) (k div c) else acc ! k)" .
  qed
qed

lemma length_interleave: "length (interleave b) = length_frames b * numberOfChannels b"
  unfolding interleave_def Let_def
  using outer_fold [of "numberOfChannels b" "numberOfChannels b" "getChannelData b"
      "length_frames b" "replicate (length_frames b * numberOfChannels b) (Num 0)"]
  by simp

lemma frame_index_less:
  assumes "i < n" "ch < (c::nat)"
  shows "i * c + ch < n * c"
proof -
  have "i * c + ch < i * c + c" using assms by simp
  also have "\<dots> = Suc i * c" by simp
  also have "\<dots> \<le> n * c" using assms by (intro mult_le_mono1) simp
  finally show ?thesis .
qed

lemma nth_interleave:
  assumes "i < length_frames b" "ch < numberOfChannels b"
  shows "interleave b ! (i * numberOfChannels b + ch) = getChannelData b ch i"
proof -
  let ?c = "numberOfChannels b" and ?n = "length_frames b"
  let ?k = "i * ?c + ch"
  have k: "?k < ?n * ?c" using assms by (rule frame_index_less)
  have md: "?k mod ?c = ch" "?k div ?c = i" using assms by simp_all
  have "interleave b ! ?k
      = (if ?k mod ?c < ?c \<and> ?k div ?c < ?n then getChannelData b (?k mod ?c) (?k div ?c)
         else replicate (?n * ?c) (Num 0) ! ?k)"
    unfolding interleave_def Let_def
    using outer_fold [of ?c ?c "getChannelData b" ?n "replicate (?n * ?c) (Num 0)"] k
    by simp
  then show ?thesis using md assms by simp
qed

lemma audioBufferToWavBlob_ok:
  "\<exists>blob. audioBufferToWavBlob b = Some blob
     \<and> length blob = 44 + length_frames b * (numberOfChannels b * 2)
     \<and> region blob 4 4
         = le_bytes 4 ((36 + length_frames b * (numberOfChannels b * 2)) mod 4294967296)
     \<and> (\<forall>j < length_frames b * numberOfChannels b.
           region blob (44 + 2 * j) 2
             = le_bytes 2 (nat (ToInt16 (pcm_sample (interleave b ! j)) mod 65536)))"
proof -
  let ?c = "numberOfChannels b" and ?n = "length_frames b"
  define view :: "byte list" where "view = replicate (44 + ?n * (?c * 2)) 0"
  have lv: "length view = 44 + ?n * (?c * 2)" by (simp add: view_def)
  then have "44 \<le> length view" by simp
  from write_header_ok [OF this, of ?c "sampleRate b" ?n] obtain h where h:
    "write_header view ?c (sampleRate b) ?n = Some h" "length h = length view"
    "region h 4 4 = le_bytes 4 ((36 + ?n * (?c * 2)) mod 4294967296)"
    by blast
  have "44 + 2 * length (interleave b) \<le> length h"
    using h(2) lv by (simp add: length_interleave)
  from write_pcm_ok [OF this] obtain blob where blob:
    "write_pcm (interleave b) 44 h = Some blob" "length blob = length h"
    "\<forall>p k. p + k \<le> 44 \<longrightarrow> region blob p k = region h p k"
    "\<forall>j < length (interleave b). region blob (44 + 2 * j) 2
        = le_bytes 2 (nat (ToInt16 (pcm_sample (interleave b ! j)) mod 65536))"
    by blast
  have "audioBufferToWavBlob b = Some blob"
    unfolding audioBufferToWavBlob_def Let_def using h(1) blob(1) by (simp add: view_def)
  moreover have "length blob = 44 + ?n * (?c * 2)"
    using blob(2) h(2) lv by simp
  moreover have "region blob 4 4 = le_bytes 4 ((36 + ?n * (?c * 2)) mod 4294967296)"
    using blob(3) h(3) by simp
  ultimately show ?thesis using blob(4) by (simp add: length_interleave)
qed

section \<open>Facts about stored samples\<close>

lemma blob_length_eq:
  "blob_length b = Some (44 + length_frames b * numberOfChannels b * 2)"
  using audioBufferToWavBlob_ok [of b] unfolding blob_length_def by (auto simp: mult.assoc)

lemma riff_chunk_size_eq:
  "riff_chunk_size b = Some ((36 + length_frames b * numberOfChannels b * 2) mod 2 ^ 32)"
proof -
  obtain blob where blob: "audioBufferToWavBlob b = Some blob"
    "length blob = 44 + length_frames b * (numberOfChannels b * 2)"
    "region blob 4 4
       = le_bytes 4 ((36 + length_frames b * (numberOfChannels b * 2)) mod 4294967296)"
    using audioBufferToWavBlob_ok [of b] by blast
  have "getUint32 blob 4 True
      = Some (le_value (le_bytes 4 ((36 + length_frames b * (numberOfChannels b * 2)) mod 4294967296)))"
    using blob(2,3) by (simp add: getUint32_def endian_def)
  then show ?thesis
    unfolding riff_chunk_size_def using blob(1)
    by (simp add: le_value_le_bytes mult.assoc)
qed

lemma int16_of_range: "- 32768 \<le> int16_of k \<and> int16_of k \<le> 32767"
proof -
  have "0 \<le> k mod 65536" "k mod 65536 < 65536" by simp_all
  then show ?thesis unfolding int16_of_def Let_def by auto
qed

lemma int16_of_id: "- 32768 \<le> k \<Longrightarrow> k \<le> 32767 \<Longrightarrow> int16_of k = k"
proof (cases "0 \<le> k")
  case True
  assume "k \<le> 32767"
  with True have "k mod 65536 = k" by simp
  then show ?thesis using True \<open>k \<le> 32767\<close> by (simp add: int16_of_def)
next
  case False
  assume lo: "- 32768 \<le> k"
  have "(k + 65536) mod 65536 = k + 65536"
    using lo False by (intro mod_pos_pos_trivial) simp_all
  then have "k mod 65536 = k + 65536" by simp
  then show ?thesis using lo False by (simp add: int16_of_def)
qed

lemma int16_of_mod: "int16_of (k mod 65536) = int16_of k"
  by (simp add: int16_of_def)

lemma ToInt16_range: "- 32768 \<le> ToInt16 x \<and> ToInt16 x \<le> 32767"
  using int16_of_range by (cases x) simp_all

lemma int16_bytes_roundtrip:
  assumes "- 32768 \<le> t" "t \<le> 32767"
  shows "int16_of (int (le_value (le_bytes 2 (nat (t mod 65536))))) = t"
proof -
  have m: "0 \<le> t mod 65536" "t mod 65536 < 65536" by simp_all
  have "le_value (le_bytes 2 (nat (t mod 65536))) = nat (t mod 65536) mod 65536"
    by (simp add: le_value_le_bytes)
  also have "\<dots> = nat (t mod 65536)"
    using m by (simp add: nat_less_iff)
  finally have "int (le_value (le_bytes 2 (nat (t mod 65536)))) = t mod 65536"
    using m by simp
  then show ?thesis using assms by (simp add: int16_of_mod int16_of_id)
qed

lemma stored_sample_eq:
  assumes "i < length_frames b" "ch < numberOfChannels b"
  shows "stored_sample b i ch = Some (ToInt16 (pcm_sample (getChannelData b ch i)))"
proof -
  let ?j = "i * numberOfChannels b + ch"
  have j: "?j < length_frames b * numberOfChannels b"
    using assms by (rule frame_index_less)
  obtain blob where blob: "audioBufferToWavBlob b = Some blob"
    "length blob = 44 + length_frames b * (numberOfChannels b * 2)"
    "\<forall>j < length_frames b * numberOfChannels b.
        region blob (44 + 2 * j) 2
          = le_bytes 2 (nat (ToInt16 (pcm_sample (interleave b ! j)) mod 65536))"
    using audioBufferToWavBlob_ok [of b] by blast
  have fit: "44 + 2 * ?j + 2 \<le> length blob"
    using j blob(2) by simp
  have "region blob (44 + 2 * ?j) 2
      = le_bytes 2 (nat (ToInt16 (pcm_sample (getChannelData b ch i)) mod 65536))"
    using blob(3) [rule_format, OF j] nth_interleave [OF assms] by (simp only:)
  then have "getInt16 blob (44 + 2 * ?j) True
      = Some (ToInt16 (pcm_sample (getChannelData b ch i)))"
    using fit ToInt16_range [of "pcm_sample (getChannelData b ch i)"]
    by (simp add: getInt16_def endian_def int16_bytes_roundtrip)
  then show ?thesis
    unfolding stored_sample_def using blob(1) by simp
qed

lemma pcm_sample_Num:
  "pcm_sample (Num s) = Num (max (- 1) (min 1 s) * (if s < 0 then 32768 else 32767))"
  unfolding pcm_sample_def Math_max_def Math_min_def Let_def by auto

lemma pcm_sample_special:
  "pcm_sample PosInf = Num 32767" "pcm_sample NegInf = Num (- 32768)" "pcm_sample NaN = NaN"
  unfolding pcm_sample_def Math_max_def Math_min_def Let_def by simp_all

lemma js_truncate_bounds:
  assumes "real_of_int lo \<le> x" "x \<le> real_of_int hi" "lo \<le> 0" "0 \<le> hi"
  shows "lo \<le> js_truncate x \<and> js_truncate x \<le> hi"
proof (cases "x < 0")
  case True
  have "- x \<le> real_of_int (- lo)" using assms(1) by simp
  then have "\<lfloor>- x\<rfloor> \<le> - lo" by (simp only: floor_le_iff)
  moreover have "0 \<le> \<lfloor>- x\<rfloor>" using True by simp
  moreover have "js_truncate x = - \<lfloor>- x\<rfloor>" using True by (simp add: js_truncate_def)
  ultimately show ?thesis using assms(4) by linarith
next
  case False
  have "\<lfloor>x\<rfloor> \<le> hi" using assms(2) by (simp add: floor_le_iff)
  moreover have "0 \<le> \<lfloor>x\<rfloor>" using False by simp
  moreover have "js_truncate x = \<lfloor>x\<rfloor>" using False by (simp add: js_truncate_def)
  ultimately show ?thesis using assms(3) by linarith
qed

lemma pcm_product_range:
  "- 32768 \<le> max (- 1) (min 1 s) * (if s < 0 then 32768 else 32767)
     \<and> max (- 1) (min 1 s) * (if s < 0 then 32768 else 32767) \<le> (32767 :: real)"
  by (auto simp: max_def min_def)

lemma ToInt16_pcm_sample_Num:
  "ToInt16 (pcm_sample (Num s))
     = js_truncate (max (- 1) (min 1 s) * (if s < 0 then 32768 else 32767))"
proof -
  let ?y = "max (- 1) (min 1 s) * (if s < 0 then 32768 else 32767)"
  have "- 32768 \<le> js_truncate ?y \<and> js_truncate ?y \<le> 32767"
    using js_truncate_bounds [of "- 32768" ?y 32767] pcm_product_range [of s] by simp
  then show ?thesis
    by (simp only: pcm_sample_Num ToInt16.simps int16_of_id)
qed

lemma decode_truncate_error:
  assumes "- 1 \<le> s" "s \<le> 1"
  shows "\<bar>decode_pcm16 (js_truncate (s * (if s < 0 then 32768 else 32767))) - s\<bar> < 1 / 32767"
proof (cases "s < 0")
  case True
  define v where "v = \<lfloor>- (s * 32768)\<rfloor>"
  have v: "real_of_int v \<le> - (s * 32768)" "- (s * 32768) < real_of_int v + 1" "0 \<le> v"
    unfolding v_def using True by (simp_all add: mult_less_0_iff)
  have t: "js_truncate (s * (if s < 0 then 32768 else 32767)) = - v"
    using True by (simp add: js_truncate_def v_def mult_less_0_iff)
  show ?thesis
  proof (cases "v = 0")
    case True
    then show ?thesis using v \<open>s < 0\<close> unfolding t by (simp add: decode_pcm16_def)
  next
    case False
    then have "- v < 0" using v(3) by simp
    then have "decode_pcm16 (- v) = - real_of_int v / 32768"
      by (simp add: decode_pcm16_def)
    then show ?thesis using v unfolding t by (simp add: abs_less_iff field_simps)
  qed
next
  case False
  define v where "v = \<lfloor>s * 32767\<rfloor>"
  have v: "real_of_int v \<le> s * 32767" "s * 32767 < real_of_int v + 1" "0 \<le> v"
    unfolding v_def using False by simp_all
  have t: "js_truncate (s * (if s < 0 then 32768 else 32767)) = v"
    using False by (simp add: js_truncate_def v_def mult_less_0_iff)
  have "decode_pcm16 v = real_of_int v / 32767"
    using v(3) by (simp add: decode_pcm16_def)
  then show ?thesis using v unfolding t by (simp add: abs_less_iff field_simps)
qed

lemma js_truncate_near_round: "\<bar>js_truncate y - round y\<bar> \<le> 1"
proof -
  have "\<lfloor>y\<rfloor> \<le> round y" "round y \<le> \<lfloor>y\<rfloor> + 1"
    unfolding round_def by linarith+
  moreover have "\<lfloor>y\<rfloor> \<le> - \<lfloor>- y\<rfloor>" "- \<lfloor>- y\<rfloor> \<le> \<lfloor>y\<rfloor> + 1" "round y \<le> - \<lfloor>- y\<rfloor>"
    unfolding round_def by linarith+
  ultimately show ?thesis unfolding js_truncate_def by (simp add: abs_le_iff)
qed

section \<open>Claims\<close>

text \<open>
  C1 (amended). The blob has \<open>44 + n * c * 2\<close> bytes for every frame count \<open>n\<close> and channel
  count \<open>c\<close>. The RIFF chunk size read back at offset 4 is \<open>36 + n * c * 2\<close> reduced modulo
  \<open>2^32\<close>, the width of the field; so it is \<open>36 + n * c * 2\<close> whenever that number is below
  \<open>2^32\<close>, and in particular for 2 channels and 8 seconds at 44100 frames a second the length
  is \<open>44 + 8 * 44100 * 2 * 2\<close> and the field \<open>36 + 8 * 44100 * 2 * 2\<close>.
\<close>

theorem C1_blob_length_and_riff_size:
  "blob_length b = Some (44 + length_frames b * numberOfChannels b * 2)
   \<and> riff_chunk_size b = Some ((36 + length_frames b * numberOfChannels b * 2) mod 2 ^ 32)
   \<and> (36 + length_frames b * numberOfChannels b * 2 < 2 ^ 32 \<longrightarrow>
        riff_chunk_size b = Some (36 + length_frames b * numberOfChannels b * 2))
   \<and> (numberOfChannels b = 2 \<and> length_frames b = 8 * 44100 \<longrightarrow>
        blob_length b = Some (44 + 8 * 44100 * 2 * 2)
        \<and> riff_chunk_size b = Some (36 + 8 * 44100 * 2 * 2))"
proof -
  have len: "blob_length b = Some (44 + length_frames b * numberOfChannels b * 2)"
    by (rule blob_length_eq)
  have riff: "riff_chunk_size b
      = Some ((36 + length_frames b * numberOfChannels b * 2) mod 2 ^ 32)"
    by (rule riff_chunk_size_eq)
  have small: "riff_chunk_size b = Some (36 + length_frames b * numberOfChannels b * 2)"
    if "36 + length_frames b * numberOfChannels b * 2 < 2 ^ 32"
    using riff that by simp
  have eight: "blob_length b = Some (44 + 8 * 44100 * 2 * 2)
      \<and> riff_chunk_size b = Some (36 + 8 * 44100 * 2 * 2)"
    if "numberOfChannels b = 2 \<and> length_frames b = 8 * 44100"
    using len riff that by simp
  show ?thesis using len riff small eight by blast
qed

theorem C1_eight_seconds_stereo_witness:
  "blob_length (constant_buffer 2 (8 * 44100) (Num 0)) = Some (44 + 8 * 44100 * 2 * 2)
   \<and> riff_chunk_size (constant_buffer 2 (8 * 44100) (Num 0)) = Some (36 + 8 * 44100 * 2 * 2)"
  using C1_blob_length_and_riff_size [of "constant_buffer 2 (8 * 44100) (Num 0)"]
  by (simp add: constant_buffer_def)

theorem C1_riff_size_wraps_counterexample:
  "riff_chunk_size (constant_buffer 2 (2 ^ 30) (Num 0)) = Some 36
   \<and> riff_chunk_size (constant_buffer 2 (2 ^ 30) (Num 0)) \<noteq> Some (36 + 2 ^ 30 * 2 * 2)"
  using riff_chunk_size_eq [of "constant_buffer 2 (2 ^ 30) (Num 0)"]
  by (simp add: constant_buffer_def)

text \<open>
  C2 (amended). For the sample of frame \<open>i\<close> and channel \<open>ch\<close> the encoder stores, as a
  little-endian signed 16-bit value at byte \<open>44 + 2 * (i * c + ch)\<close>, the product
  \<open>clamp(s, -1, 1) * (s < 0 ? 32768 : 32767)\<close> truncated towards zero, which is what
  \<open>setInt16\<close> does with a fraction; the source does not round. The stored value is within 1
  of the rounded product. An infinite sample is stored as its clamped end, NaN as 0.
\<close>

theorem C2_sample_truncated_towards_zero:
  assumes "i < length_frames b" "ch < numberOfChannels b"
  shows "(getChannelData b ch i = Num s \<longrightarrow>
          stored_sample b i ch
            = Some (js_truncate (max (- 1) (min 1 s) * (if s < 0 then 32768 else 32767)))
          \<and> (\<exists>v. stored_sample b i ch = Some v \<and> \<bar>v - spec_pcm16 s\<bar> \<le> 1))
       \<and> (getChannelData b ch i = PosInf \<longrightarrow> stored_sample b i ch = Some 32767)
       \<and> (getChannelData b ch i = NegInf \<longrightarrow> stored_sample b i ch = Some (- 32768))
       \<and> (getChannelData b ch i = NaN \<longrightarrow> stored_sample b i ch = Some 0)"
proof -
  have st: "stored_sample b i ch = Some (ToInt16 (pcm_sample (getChannelData b ch i)))"
    using assms by (rule stored_sample_eq)
  have fin: "stored_sample b i ch
      = Some (js_truncate (max (- 1) (min 1 s) * (if s < 0 then 32768 else 32767)))"
    if "getChannelData b ch i = Num s"
    using st that by (simp only: ToInt16_pcm_sample_Num)
  have near: "\<exists>v. stored_sample b i ch = Some v \<and> \<bar>v - spec_pcm16 s\<bar> \<le> 1"
    if "getChannelData b ch i = Num s"
    using fin [OF that] js_truncate_near_round unfolding spec_pcm16_def by blast
  have inf: "stored_sample b i ch = Some 32767" if "getChannelData b ch i = PosInf"
    using st that by (simp add: pcm_sample_special int16_of_id js_truncate_def)
  have ninf: "stored_sample b i ch = Some (- 32768)" if "getChannelData b ch i = NegInf"
    using st that by (simp add: pcm_sample_special int16_of_id js_truncate_def)
  have nan: "stored_sample b i ch = Some 0" if "getChannelData b ch i = NaN"
    using st that by (simp add: pcm_sample_special)
  show ?thesis using fin near inf ninf nan by blast
qed

theorem C2_three_quarters_sample_witness:
  "stored_sample (constant_buffer 2 3 (Num (3 / 4))) 2 1 = Some 24575"
  using C2_sample_truncated_towards_zero [of 2 "constant_buffer 2 3 (Num (3 / 4))" 1 "3 / 4"]
  by (simp add: constant_buffer_def js_truncate_def)

theorem C2_quarter_sample_counterexample:
  "stored_sample (constant_buffer 1 1 (Num (1 / 4))) 0 0 = Some 8191
   \<and> spec_pcm16 (1 / 4) = 8192"
proof -
  have "stored_sample (constant_buffer 1 1 (Num (1 / 4))) 0 0
      = Some (ToInt16 (pcm_sample (Num (1 / 4))))"
    using stored_sample_eq [of 0 "constant_buffer 1 1 (Num (1 / 4))" 0]
    by (simp add: constant_buffer_def)
  moreover have "ToInt16 (pcm_sample (Num (1 / 4))) = 8191"
    by (simp add: ToInt16_pcm_sample_Num js_truncate_def)
  moreover have "spec_pcm16 (1 / 4) = 8192"
    by (simp add: spec_pcm16_def round_def)
  ultimately show ?thesis by simp
qed

text \<open>
  C3. For every prompt the derived audio parameters lie in their half-open ranges: the base
  frequency in \<open>[110, 330)\<close>, the detune in \<open>[-100, 100)\<close>, the LFO rate in \<open>[0.1, 0.4)\<close>.
\<close>

theorem C3_parameter_ranges:
  "110 \<le> baseFreq p \<and> baseFreq p < 330
     \<and> - 100 \<le> detuneCents p \<and> detuneCents p < 100
     \<and> 1 / 10 \<le> lfoRate p \<and> lfoRate p < 4 / 10"
proof -
  have l: "0 \<le> hashString (p @ js ''lfo'') mod 30"
          "hashString (p @ js ''lfo'') mod 30 < 30"
    by simp_all
  then have "0 \<le> real_of_int (hashString (p @ js ''lfo'') mod 30)"
            "real_of_int (hashString (p @ js ''lfo'') mod 30) < 30"
    by linarith+
  then have "1 / 10 \<le> lfoRate p \<and> lfoRate p < 4 / 10"
    unfolding lfoRate_def by simp
  moreover have "110 \<le> baseFreq p \<and> baseFreq p < 330"
    unfolding baseFreq_def by simp
  moreover have "- 100 \<le> detuneCents p \<and> detuneCents p < 100"
    unfolding detuneCents_def by simp
  ultimately show ?thesis by simp
qed

theorem C3_parameter_ranges_witness:
  "baseFreq (js ''test'') = 308 \<and> (110::int) \<le> 308 \<and> (308::int) < 330
     \<and> - 100 \<le> detuneCents (js ''test'') \<and> detuneCents (js ''test'') < 100
     \<and> 1 / 10 \<le> lfoRate (js ''test'') \<and> lfoRate (js ''test'') < 4 / 10"
proof -
  have "baseFreq (js ''test'') = 308"
    by (simp add: baseFreq_def hashString_def js_def hash_step_def js_shl_def ToInt32_def)
  then show ?thesis
    using C3_parameter_ranges [of "js ''test''"] by simp
qed

text \<open>
  C4. Round trip: when the sample of frame \<open>i\<close> and channel \<open>ch\<close> is a number \<open>s\<close> in
  \<open>[-1, 1]\<close>, the encoder produces a blob, and decoding the little-endian 16-bit value of
  that sample (divided by 32768 when negative, by 32767 otherwise) gives a number within
  \<open>1 / 32767\<close> of \<open>s\<close>.
\<close>

theorem C4_wav_roundtrip_error:
  assumes "i < length_frames b" "ch < numberOfChannels b"
    and "getChannelData b ch i = Num s" "- 1 \<le> s" "s \<le> 1"
  shows "\<exists>d. decoded_sample b i ch = Some d \<and> \<bar>d - s\<bar> < 1 / 32767 \<and> \<bar>d - s\<bar> \<le> 1 / 32767"
proof -
  have clamp: "max (- 1) (min 1 s) = s" using assms(4,5) by simp
  have "stored_sample b i ch = Some (ToInt16 (pcm_sample (Num s)))"
    using stored_sample_eq [OF assms(1,2)] assms(3) by simp
  then have "stored_sample b i ch
      = Some (js_truncate (s * (if s < 0 then 32768 else 32767)))"
    by (simp only: ToInt16_pcm_sample_Num clamp)
  then have "decoded_sample b i ch
      = Some (decode_pcm16 (js_truncate (s * (if s < 0 then 32768 else 32767))))"
    by (simp add: decoded_sample_def)
  moreover have
    "\<bar>decode_pcm16 (js_truncate (s * (if s < 0 then 32768 else 32767))) - s\<bar> < 1 / 32767"
    using assms(4,5) by (rule decode_truncate_error)
  ultimately show ?thesis by simp
qed

theorem C4_wav_roundtrip_witness:
  "decoded_sample (constant_buffer 2 3 (Num (1 / 4))) 1 1 = Some (8191 / 32767)
   \<and> \<bar>8191 / 32767 - 1 / 4\<bar> \<le> (1 / 32767 :: real)"
proof -
  have "stored_sample (constant_buffer 2 3 (Num (1 / 4))) 1 1
      = Some (ToInt16 (pcm_sample (Num (1 / 4))))"
    using stored_sample_eq [of 1 "constant_buffer 2 3 (Num (1 / 4))" 1]
    by (simp add: constant_buffer_def)
  moreover have "ToInt16 (pcm_sample (Num (1 / 4))) = 8191"
    by (simp add: ToInt16_pcm_sample_Num js_truncate_def)
  ultimately have "decoded_sample (constant_buffer 2 3 (Num (1 / 4))) 1 1 = Some (8191 / 32767)"
    by (simp add: decoded_sample_def decode_pcm16_def)
  then show ?thesis
    using C4_wav_roundtrip_error [of 1 "constant_buffer 2 3 (Num (1 / 4))" 1 "1 / 4"]
    by (simp add: constant_buffer_def)
qed

text \<open>
  C5 (amended). For every render duration \<open>d > 2\<close> seconds the master gain programmed by
  the renderer is 0 at \<open>t = 0\<close>, 0.8 at \<open>t = 1\<close>, 0.6 at \<open>t = d - 1\<close> and 0 at \<open>t = d\<close>, and
  linear between those breakpoints. At \<open>d = 2\<close> the two middle breakpoints fall on the same
  instant and the gain cannot be both 0.8 and 0.6 there.
\<close>

theorem C5_master_gain_envelope:
  assumes "2 < d"
  shows "master_gain d 0 = 0 \<and> master_gain d 1 = 8 / 10
       \<and> master_gain d (d - 1) = 6 / 10 \<and> master_gain d d = 0
       \<and> (\<forall>t. 0 \<le> t \<and> t \<le> 1 \<longrightarrow> master_gain d t = 8 / 10 * t)
       \<and> (\<forall>t. 1 \<le> t \<and> t \<le> d - 1 \<longrightarrow>
              master_gain d t = 8 / 10 + (6 / 10 - 8 / 10) * ((t - 1) / (d - 2)))
       \<and> (\<forall>t. d - 1 \<le> t \<and> t \<le> d \<longrightarrow>
              master_gain d t = 6 / 10 + (0 - 6 / 10) * (t - (d - 1)))"
proof -
  have d: "2 \<le> d" using assms by simp
  have p0: "master_gain d 0 = 0"
    using master_gain_first [OF d, of 0] by simp
  have p1: "master_gain d 1 = 8 / 10"
    using master_gain_second [OF d, of 1] assms by simp
  have p2: "master_gain d (d - 1) = 6 / 10"
    using master_gain_third [OF d, of "d - 1"] by simp
  have p3: "master_gain d d = 0"
    using master_gain_after [OF d, of d] by simp
  have s1: "master_gain d t = 8 / 10 * t" if "0 \<le> t \<and> t \<le> 1" for t
  proof (cases "t = 1")
    case True
    then show ?thesis using p1 by simp
  next
    case False
    then show ?thesis using master_gain_first [OF d, of t] that by simp
  qed
  have s2: "master_gain d t = 8 / 10 + (6 / 10 - 8 / 10) * ((t - 1) / (d - 2))"
    if "1 \<le> t \<and> t \<le> d - 1" for t
  proof (cases "t = d - 1")
    case True
    then show ?thesis using p2 assms by simp
  next
    case False
    then show ?thesis using master_gain_second [OF d, of t] that by simp
  qed
  have s3: "master_gain d t = 6 / 10 + (0 - 6 / 10) * (t - (d - 1))"
    if "d - 1 \<le> t \<and> t \<le> d" for t
  proof (cases "t = d")
    case True
    then show ?thesis using p3 by simp
  next
    case False
    then show ?thesis using master_gain_third [OF d, of t] that by simp
  qed
  show ?thesis using p0 p1 p2 p3 s1 s2 s3 by blast
qed

theorem C5_eight_seconds_witness:
  "master_gain 8 0 = 0 \<and> master_gain 8 1 = 8 / 10 \<and> master_gain 8 7 = 6 / 10
   \<and> master_gain 8 8 = 0 \<and> master_gain 8 4 = 7 / 10"
  using C5_master_gain_envelope [of 8] by simp

theorem C5_two_seconds_counterexample:
  "\<not> (master_gain 2 0 = 0 \<and> master_gain 2 1 = 8 / 10
       \<and> master_gain 2 (2 - 1) = 6 / 10 \<and> master_gain 2 2 = 0)"
  by simp

text \<open>
  C6. The prompt hasher is total; it is the fold \<open>acc = acc * 31 + code\<close> over a 32-bit
  two's-complement accumulator followed by the absolute value (\<open>hash_spec\<close>), and its result
  is a non-negative integer that fits 32 bits (it is at most \<open>2^31\<close>).
\<close>

theorem C6_hashString_fold_abs_32bit:
  "hashString str = hash_spec str \<and> 0 \<le> hashString str
     \<and> hashString str \<le> 2 ^ 31 \<and> hashString str < 2 ^ 32"
  using hashString_range [of str] hashString_eq_hash_spec [of str] by simp

theorem C6_hashString_witness:
  "hashString (js ''test'') = 3556498 \<and> hash_spec (js ''test'') = 3556498
     \<and> (0::int) \<le> 3556498 \<and> (3556498::int) < 2 ^ 32"
proof -
  have "hashString (js ''test'') = 3556498"
    by (simp add: hashString_def js_def hash_step_def js_shl_def ToInt32_def)
  then show ?thesis
    using C6_hashString_fold_abs_32bit [of "js ''test''"] by simp
qed

text \<open>
  C7 (amended). When the audio blob decodes to a buffer of \<open>d\<close> seconds, the merge driver
  sets two timers at capture start: the audio source starts after 50 ms and the recorder
  stops after \<open>Math.ceil(d * 1000) + 100\<close> ms, the product being the double-precision one.
  The 50 ms lead is a timer of its own and is not added to the stop delay. For a duration
  between a microsecond and \<open>10^9\<close> seconds the double product is within \<open>1000 d / 2^51\<close>
  of \<open>1000 d\<close> and the stop delay is a whole number of milliseconds, at least
  \<open>1000 d (1 - 2^-51) + 100\<close> and below \<open>1000 d (1 + 2^-51) + 101\<close>; for 3 seconds it is
  3100 ms.
\<close>

theorem C7_stop_timer_delay:
  assumes "decodeAudioData bytes = Some d"
  shows "timers (fst (renderMergedAV decodeAudioData p (Some bytes) fps))
           = [(StartAudioSource, Num 50), (StopRecorder, stop_delay_ms d)]
       \<and> (1 / 10 ^ 6 \<le> d \<and> d \<le> 10 ^ 9 \<longrightarrow>
            (\<exists>y. times_double (to_double d) (Num 1000) = Num y
                \<and> \<bar>y - d * 1000\<bar> \<le> d * 1000 / 2 ^ 51
                \<and> stop_delay_ms d = Num (real_of_int (\<lceil>y\<rceil> + 100)))
            \<and> (\<exists>v. stop_delay_ms d = Num v
                \<and> d * 1000 * (1 - 1 / 2 ^ 51) + 100 \<le> v
                \<and> v < d * 1000 * (1 + 1 / 2 ^ 51) + 101))"
proof -
  have t: "timers (fst (renderMergedAV decodeAudioData p (Some bytes) fps))
      = [(StartAudioSource, Num 50), (StopRecorder, stop_delay_ms d)]"
    using assms by (rule timers_renderMergedAV)
  have o: "(\<exists>y. times_double (to_double d) (Num 1000) = Num y
                \<and> \<bar>y - d * 1000\<bar> \<le> d * 1000 / 2 ^ 51
                \<and> stop_delay_ms d = Num (real_of_int (\<lceil>y\<rceil> + 100)))
            \<and> (\<exists>v. stop_delay_ms d = Num v
                \<and> d * 1000 * (1 - 1 / 2 ^ 51) + 100 \<le> v
                \<and> v < d * 1000 * (1 + 1 / 2 ^ 51) + 101)"
    if "1 / 10 ^ 6 \<le> d \<and> d \<le> 10 ^ 9"
    using stop_delay_ordinary [of d] stop_delay_bounds [of d] that by blast
  show ?thesis using t o by blast
qed

theorem C7_three_seconds_witness:
  "timers (fst (renderMergedAV (decodes_to 3) (js ''test'') (Some []) 30))
     = [(StartAudioSource, Num 50), (StopRecorder, Num 3100)]"
  using C7_stop_timer_delay [of "decodes_to 3" "[]" 3 "js ''test''" 30]
  by (simp add: decodes_to_def stop_delay_3)

theorem C7_three_seconds_counterexample:
  "timers (fst (renderMergedAV (decodes_to 3) (js ''test'') (Some []) 30))
     \<noteq> [(StartAudioSource, Num 50), (StopRecorder, Num (3 * 1000 + 50 + 100))]"
  using timers_renderMergedAV [of "decodes_to 3" "[]" 3 "js ''test''" 30]
  by (simp add: decodes_to_def stop_delay_3)

text \<open>
  C8 (amended). Merging without a generated audio blob does not fail. \<open>mergeAndPreview\<close>
  never rejects, and with \<open>audioBlob\<close> null its guard only shows the alert "Generate audio
  first." and returns, leaving the state unchanged; it starts an audio context, a capture
  session or a recorder exactly when an audio blob is present. \<open>renderMergedAV\<close> has no
  such guard: called with a null blob it constructs an audio context and then rejects with
  a TypeError, without starting a capture session or a recorder.
\<close>

theorem C8_merge_without_audio:
  "fst (snd (mergeAndPreview decodeAudioData st)) = Inr ()
   \<and> (audioBlob st = None \<longrightarrow>
        mergeAndPreview decodeAudioData st
          = ([Alert (js ''Generate audio first.'')], Inr (), st))
   \<and> ((filter starts_media (fst (mergeAndPreview decodeAudioData st)) = [])
        = (audioBlob st = None))
   \<and> renderMergedAV decodeAudioData p None fps = ([NewAudioContext], Inl TypeError)
   \<and> filter starts_capture (fst (renderMergedAV decodeAudioData p None fps)) = []"
proof -
  have "mergeAndPreview decodeAudioData st
      = ([Alert (js ''Generate audio first.'')], Inr (), st)"
    if "audioBlob st = None"
    using that by (rule mergeAndPreview_guard)
  moreover have "filter starts_capture (fst (renderMergedAV decodeAudioData p None fps)) = []"
    by (simp add: renderMergedAV_null)
  ultimately show ?thesis
    using mergeAndPreview_returns [of decodeAudioData st]
      mergeAndPreview_starts_media [of decodeAudioData st]
      renderMergedAV_null [of decodeAudioData p fps]
    by blast
qed

theorem C8_merge_without_audio_witness:
  "mergeAndPreview (decodes_to 3) no_audio_state
     = ([Alert (js ''Generate audio first.'')], Inr (), no_audio_state)"
  using C8_merge_without_audio [of "decodes_to 3" no_audio_state]
  by (simp add: no_audio_state_def)

theorem C8_no_failure_counterexample:
  "\<not> isl (fst (snd (mergeAndPreview (decodes_to 3) no_audio_state)))
   \<and> snd (renderMergedAV (decodes_to 3) (js ''test'') None 30) = Inl TypeError
   \<and> filter starts_media (fst (renderMergedAV (decodes_to 3) (js ''test'') None 30))
       = [NewAudioContext]"
  by (simp add: mergeAndPreview_returns renderMergedAV_null)

text \<open>
  C9. For every text, every maximal width and every measure of strings, the word wrap
  returns at most 4 lines, and each returned line either measures no more than the maximal
  width or is a single word of the text, unsplit and free of spaces, that alone measures
  more.
\<close>

theorem C9_wrapText_lines:
  "length (wrapText text maxWidth measureText) \<le> 4
   \<and> (\<forall>line \<in> set (wrapText text maxWidth measureText).
         measureText line \<le> maxWidth
         \<or> (maxWidth < measureText line \<and> line \<in> set (split_space text) \<and> 32 \<notin> set line))"
proof -
  have "measureText line \<le> maxWidth
      \<or> (maxWidth < measureText line \<and> line \<in> set (split_space text) \<and> 32 \<notin> set line)"
    if "line \<in> set (wrapText text maxWidth measureText)" for line
  proof (cases "measureText line \<le> maxWidth")
    case True
    then show ?thesis by simp
  next
    case False
    then have "line \<in> set (split_space text)"
      using wrapText_lines_ok [OF that] by (simp add: line_ok_def)
    then show ?thesis using False split_space_no_space [of line "text"] by simp
  qed
  then show ?thesis using wrapText_length [of "text" maxWidth measureText] by blast
qed

theorem C9_wrapText_narrow_witness:
  "wrapText (js ''A dark biomechanical lord awakens amidst thunder'') 100 narrow_measure
     = [js ''A dark'', js ''biomechanical'', js ''lord'', js ''awakens'']
   \<and> narrow_measure (js ''A dark'') \<le> 100
   \<and> 100 < narrow_measure (js ''biomechanical'')
   \<and> js ''biomechanical''
        \<in> set (split_space (js ''A dark biomechanical lord awakens amidst thunder''))
   \<and> narrow_measure (js ''lord'') \<le> 100
   \<and> narrow_measure (js ''awakens'') \<le> 100"
  using C9_wrapText_lines [of "js ''A dark biomechanical lord awakens amidst thunder''"
      100 narrow_measure]
  by (simp add: wrap_example) (simp add: narrow_measure_def js_def)

text \<open>
  C10. The word wrap never returns an empty line, and for the empty text it returns no line
  at all.
\<close>

theorem C10_wrapText_no_empty_line:
  "(\<forall>line \<in> set (wrapText text maxWidth measureText). line \<noteq> [])
   \<and> wrapText [] maxWidth measureText = []"
proof -
  have "line \<noteq> []" if "line \<in> set (wrapText text maxWidth measureText)" for line
    using wrapText_lines_ok [OF that] by (simp add: line_ok_def)
  then show ?thesis using wrapText_empty [of maxWidth measureText] by blast
qed

theorem C10_wrapText_spaces_witness:
  "wrapText (js ''  a  b '') 100 narrow_measure = [js ''a  b '']
   \<and> js ''a  b '' \<noteq> []
   \<and> wrapText [] 100 narrow_measure = []"
proof -
  have "wrapText (js ''  a  b '') 100 narrow_measure = [js ''a  b '']"
    by (simp add: wrapText_def wrap_step_cases js_def narrow_measure_def)
  then show ?thesis
    using C10_wrapText_no_empty_line [of "js ''  a  b ''" 100 narrow_measure]
    by (simp add: js_def)
qed

end
